theory Spec2Isabelle
  imports Main "HOL-Library.Multiset" "HOL-Library.Sublist" "HOL-Library.AList"
begin

section \<open>Events\<close>

text \<open>
  The client of \<^verbatim>\<open>src/test.js\<close> handles nostr events: JavaScript objects with the fields
  \<^verbatim>\<open>id\<close>, \<^verbatim>\<open>pubkey\<close>, \<^verbatim>\<open>created_at\<close>, \<^verbatim>\<open>kind\<close>, \<^verbatim>\<open>tags\<close> and \<^verbatim>\<open>content\<close>. An unsigned
  payload is what \<^verbatim>\<open>finishEvent\<close> receives; an event is what it returns and what relays deliver.

  A string field that the code tests for truthiness (\<^verbatim>\<open>!ev?.id\<close>, \<^verbatim>\<open>!voter\<close>) is a
  \<open>string\<close> whose empty value stands for every falsy value of the field. A timestamp that
  the code reads as \<^verbatim>\<open>ev.created_at || 0\<close> is an \<open>int option\<close>: \<open>None\<close> is a missing
  (or NaN) timestamp. Tags are arrays of arrays of strings.
\<close>

record unsigned =
  u_kind :: int
  u_created_at :: "int option"
  u_tags :: "string list list"
  u_content :: string

record event =
  event_id :: string
  pubkey :: string
  created_at :: "int option"
  kind :: int
  tags :: "string list list"
  content :: string

definition KIND_NOTE :: int where
  "KIND_NOTE = 1"

definition KIND_KARMA_VOTE :: int where
  "KIND_KARMA_VOTE = 30010"

text \<open>\<^verbatim>\<open>ev.created_at || 0\<close>: a missing timestamp and the timestamp 0 both read as 0.\<close>

definition created_or_0 :: "event \<Rightarrow> int" where
  "created_or_0 ev = (case created_at ev of None \<Rightarrow> 0 | Some t \<Rightarrow> t)"

section \<open>Decimal strings: \<^verbatim>\<open>String(n)\<close>\<close>

definition digit_char :: "nat \<Rightarrow> char" where
  "digit_char d = ''0123456789'' ! d"

fun String_nat :: "nat \<Rightarrow> string" where
  "String_nat n =
     (if n < 10 then [digit_char n] else String_nat (n div 10) @ [digit_char (n mod 10)])"

declare String_nat.simps [simp del]

definition String_int :: "int \<Rightarrow> string" where
  "String_int i = (if i < 0 then CHR ''-'' # String_nat (nat (- i)) else String_nat (nat i))"

section \<open>The proof-of-work miner: \<^verbatim>\<open>mineAndFinish\<close>\<close>

text \<open>
  \<^verbatim>\<open>
  function mineAndFinish(unsigned, sk, powBits = 8, maxIters = 20000) {
    const nibbles = Math.max(0, Math.floor(powBits / 4))
    const targetPrefix = '0'.repeat(nibbles)
    let nonce = 0
    while (nonce < maxIters) {
      const u = { ...unsigned, tags: [...(unsigned.tags || []), ['nonce', String(nonce)]] }
      const ev = finishEvent(u, sk)
      if (!nibbles || ev.id.startsWith(targetPrefix)) return ev
      nonce++
    }
    return finishEvent(unsigned, sk)
  }
  \<close>
  The signer \<^verbatim>\<open>finishEvent\<close> belongs to the library \<^verbatim>\<open>nostr-tools\<close>; it is a parameter of the
  model. The loop carries the number of calls made to it so far, and the result is the
  returned event together with the total number of signing calls.
\<close>

function mine_loop ::
  "(unsigned \<Rightarrow> string \<Rightarrow> event) \<Rightarrow> unsigned \<Rightarrow> string \<Rightarrow> nat \<Rightarrow> int \<Rightarrow> nat \<Rightarrow> nat
     \<Rightarrow> event \<times> nat" where
  "mine_loop finishEvent unsigned sk nibbles maxIters nonce calls =
     (if int nonce < maxIters then
        (let u = unsigned\<lparr>u_tags := u_tags unsigned @ [[''nonce'', String_nat nonce]]\<rparr>;
             ev = finishEvent u sk
         in if nibbles = 0 \<or> prefix (replicate nibbles (CHR ''0'')) (event_id ev)
            then (ev, Suc calls)
            else mine_loop finishEvent unsigned sk nibbles maxIters (Suc nonce) (Suc calls))
      else (finishEvent unsigned sk, Suc calls))"
  by pat_completeness auto
termination
  by (relation "measure (\<lambda>(f, u, sk, nibbles, maxIters, nonce, calls). nat (maxIters - int nonce))")
    auto

declare mine_loop.simps [simp del]

definition mineAndFinish ::
  "(unsigned \<Rightarrow> string \<Rightarrow> event) \<Rightarrow> unsigned \<Rightarrow> string \<Rightarrow> int \<Rightarrow> int \<Rightarrow> event \<times> nat" where
  "mineAndFinish finishEvent unsigned sk powBits maxIters =
     (let nibbles = nat (max 0 (powBits div 4))
      in mine_loop finishEvent unsigned sk nibbles maxIters 0 0)"

section \<open>Vote resolution: \<^verbatim>\<open>computeScore\<close>\<close>

text \<open>
  \<^verbatim>\<open>
  computeScore(voteEvents) {
    const latestByVoter = new Map()
    for (const ev of voteEvents) {
      const signTag = ev.tags.find(t => t[0] === 'v')
      if (!signTag) continue
      const sign = Number(signTag[1])
      if (![1, -1, 0].includes(sign)) continue
      const voter = ev.pubkey
      if (!voter) continue
      const ts = ev.created_at || 0
      const prev = latestByVoter.get(voter)
      if (!prev || ts > prev.ts) latestByVoter.set(voter, { ts, sign })
    }
    let score = 0
    for (const { sign } of latestByVoter.values()) score += sign
    return score
  }
  \<close>
  The built-in conversion \<^verbatim>\<open>Number\<close> of a string is a parameter \<open>Number\<close> of the model:
  \<open>Number s = Some k\<close> when the conversion yields the integer \<open>k\<close> (with \<open>-0\<close> read as 0,
  as \<^verbatim>\<open>includes\<close> does), and \<open>None\<close> when it yields anything else (NaN, an infinity, a
  fraction). \<^verbatim>\<open>Number(undefined)\<close>, for a tag \<^verbatim>\<open>['v']\<close> with no value, is NaN.

  A JavaScript \<^verbatim>\<open>Map\<close> keeps its keys in insertion order and \<^verbatim>\<open>set\<close> on a present key
  overwrites in place: an association list under \<open>AList.update\<close>. The signs summed are
  integers of absolute value at most 1, so the sum is exact.
\<close>

record latest =
  ts :: int
  sign :: int

definition is_v_tag :: "string list \<Rightarrow> bool" where
  "is_v_tag t = (case t of [] \<Rightarrow> False | x # _ \<Rightarrow> x = ''v'')"

definition sign_of :: "(string \<Rightarrow> int option) \<Rightarrow> string list \<Rightarrow> int option" where
  "sign_of Number signTag = (case signTag of _ # v # _ \<Rightarrow> Number v | _ \<Rightarrow> None)"

text \<open>
  The guards of the loop body: \<open>None\<close> where the body reaches a \<^verbatim>\<open>continue\<close>, otherwise
  the voter, the timestamp and the sign that the body goes on with.
\<close>

definition vote_of :: "(string \<Rightarrow> int option) \<Rightarrow> event \<Rightarrow> (string \<times> int \<times> int) option" where
  "vote_of Number ev =
     (case find is_v_tag (tags ev) of
        None \<Rightarrow> None
      | Some signTag \<Rightarrow>
          (case sign_of Number signTag of
             None \<Rightarrow> None
           | Some s \<Rightarrow>
               if s \<noteq> 1 \<and> s \<noteq> - 1 \<and> s \<noteq> 0 then None
               else if pubkey ev = [] then None
               else Some (pubkey ev, created_or_0 ev, s)))"

definition score_step ::
  "(string \<Rightarrow> int option) \<Rightarrow> event \<Rightarrow> (string \<times> latest) list \<Rightarrow> (string \<times> latest) list" where
  "score_step Number ev latestByVoter =
     (case vote_of Number ev of
        None \<Rightarrow> latestByVoter
      | Some (voter, t, s) \<Rightarrow>
          (case map_of latestByVoter voter of
             None \<Rightarrow> AList.update voter \<lparr>ts = t, sign = s\<rparr> latestByVoter
           | Some prev \<Rightarrow>
               if t > ts prev then AList.update voter \<lparr>ts = t, sign = s\<rparr> latestByVoter
               else latestByVoter))"

definition latestByVoter :: "(string \<Rightarrow> int option) \<Rightarrow> event list \<Rightarrow> (string \<times> latest) list" where
  "latestByVoter Number voteEvents = fold (score_step Number) voteEvents []"

definition computeScore :: "(string \<Rightarrow> int option) \<Rightarrow> event list \<Rightarrow> int" where
  "computeScore Number voteEvents =
     fold (\<lambda>(voter, l) score. score + sign l) (latestByVoter Number voteEvents) 0"

text \<open>
  The valid votes of one voter, in input order, as (timestamp, sign) pairs: what the
  theorems about \<open>computeScore\<close> are stated with.
\<close>

definition votes_by :: "(string \<Rightarrow> int option) \<Rightarrow> string \<Rightarrow> event list \<Rightarrow> (int \<times> int) list" where
  "votes_by Number p voteEvents =
     List.map_filter
       (\<lambda>ev. case vote_of Number ev of
                None \<Rightarrow> None
              | Some (voter, t, s) \<Rightarrow> if voter = p then Some (t, s) else None)
       voteEvents"

text \<open>
  A stand-in for \<^verbatim>\<open>Number\<close> at concrete inputs. It is JavaScript's \<^verbatim>\<open>Number\<close> on the empty
  string (0) and on the decimal integer literals with an optional sign and a value below
  \<open>2 ^ 53\<close>, among them the strings \<^verbatim>\<open>String(finalSign)\<close> that \<^verbatim>\<open>sendVote\<close> writes into a \<^verbatim>\<open>v\<close>
  tag. Every other string gets \<open>None\<close> here, which is JavaScript's result only when the
  string is no numeric literal at all; it is used at strings of the first kind and at
  non-numeric strings only. The general theorems hold for every conversion.
\<close>

definition digit_val :: "char \<Rightarrow> int option" where
  "digit_val c =
     map_of [(CHR ''0'', 0), (CHR ''1'', 1), (CHR ''2'', 2), (CHR ''3'', 3), (CHR ''4'', 4),
             (CHR ''5'', 5), (CHR ''6'', 6), (CHR ''7'', 7), (CHR ''8'', 8), (CHR ''9'', 9)] c"

fun decimal_val :: "int \<Rightarrow> string \<Rightarrow> int option" where
  "decimal_val acc [] = Some acc"
| "decimal_val acc (c # cs) =
     (case digit_val c of None \<Rightarrow> None | Some d \<Rightarrow> decimal_val (10 * acc + d) cs)"

definition unsigned_lit :: "string \<Rightarrow> int option" where
  "unsigned_lit ds =
     (if ds = [] then None
      else (case decimal_val 0 ds of
              None \<Rightarrow> None
            | Some n \<Rightarrow> if n < 2 ^ 53 then Some n else None))"

definition Number_lit :: "string \<Rightarrow> int option" where
  "Number_lit s =
     (case s of
        [] \<Rightarrow> Some 0
      | c # cs \<Rightarrow>
          if c = CHR ''+'' then unsigned_lit cs
          else if c = CHR ''-'' then map_option uminus (unsigned_lit cs)
          else unsigned_lit s)"

subsection \<open>Events as JavaScript values\<close>

text \<open>
  \<open>computeScore\<close> above takes events whose \<^verbatim>\<open>tags\<close> are an array of arrays of strings. The
  source reads \<^verbatim>\<open>ev.tags.find(t => t[0] === 'v')\<close> with no guard: it throws a
  \<^verbatim>\<open>TypeError\<close> when \<^verbatim>\<open>ev.tags\<close> is missing (or is no array), and when the search reaches
  an element that is \<^verbatim>\<open>null\<close> or \<^verbatim>\<open>undefined\<close>; \<^verbatim>\<open>find\<close> stops at the first \<^verbatim>\<open>v\<close> tag, so
  elements after it are not looked at. In a raw event \<open>raw_tags\<close> is \<open>None\<close> for the
  first case and holds \<open>None\<close> elements for the second. \<open>computeScore_raw\<close> is the same
  function on raw events, with the exception as a value.
\<close>

datatype js_error = TypeError

record raw_event =
  raw_id :: string
  raw_pubkey :: string
  raw_created_at :: "int option"
  raw_kind :: int
  raw_tags :: "string list option list option"
  raw_content :: string

fun find_v_tag :: "string list option list \<Rightarrow> js_error + string list option" where
  "find_v_tag [] = Inr None"
| "find_v_tag (None # rest) = Inl TypeError"
| "find_v_tag (Some t # rest) = (if is_v_tag t then Inr (Some t) else find_v_tag rest)"

definition vote_of_raw ::
  "(string \<Rightarrow> int option) \<Rightarrow> raw_event \<Rightarrow> js_error + (string \<times> int \<times> int) option" where
  "vote_of_raw Number ev =
     (case raw_tags ev of
        None \<Rightarrow> Inl TypeError
      | Some tag_list \<Rightarrow>
          (case find_v_tag tag_list of
             Inl e \<Rightarrow> Inl e
           | Inr None \<Rightarrow> Inr None
           | Inr (Some signTag) \<Rightarrow>
               (case sign_of Number signTag of
                  None \<Rightarrow> Inr None
                | Some s \<Rightarrow>
                    if s \<noteq> 1 \<and> s \<noteq> - 1 \<and> s \<noteq> 0 then Inr None
                    else if raw_pubkey ev = [] then Inr None
                    else Inr (Some (raw_pubkey ev,
                                    (case raw_created_at ev of None \<Rightarrow> 0 | Some t \<Rightarrow> t), s)))))"

fun score_loop_raw ::
  "(string \<Rightarrow> int option) \<Rightarrow> raw_event list \<Rightarrow> (string \<times> latest) list
     \<Rightarrow> js_error + (string \<times> latest) list" where
  "score_loop_raw Number [] latest_map = Inr latest_map"
| "score_loop_raw Number (ev # evs) latest_map =
     (case vote_of_raw Number ev of
        Inl e \<Rightarrow> Inl e
      | Inr None \<Rightarrow> score_loop_raw Number evs latest_map
      | Inr (Some (voter, t, s)) \<Rightarrow>
          score_loop_raw Number evs
            (case map_of latest_map voter of
               None \<Rightarrow> AList.update voter \<lparr>ts = t, sign = s\<rparr> latest_map
             | Some prev \<Rightarrow>
                 if t > ts prev then AList.update voter \<lparr>ts = t, sign = s\<rparr> latest_map
                 else latest_map))"

definition computeScore_raw :: "(string \<Rightarrow> int option) \<Rightarrow> raw_event list \<Rightarrow> js_error + int" where
  "computeScore_raw Number voteEvents =
     (case score_loop_raw Number voteEvents [] of
        Inl e \<Rightarrow> Inl e
      | Inr latest_map \<Rightarrow>
          Inr (fold (\<lambda>(voter, l) score. score + sign l) latest_map 0))"

text \<open>
  A raw event whose \<^verbatim>\<open>tags\<close> are an array of arrays, and the event it then is.
\<close>

definition tag_arrays :: "raw_event \<Rightarrow> bool" where
  "tag_arrays ev =
     (case raw_tags ev of None \<Rightarrow> False | Some tag_list \<Rightarrow> list_all (\<lambda>t. t \<noteq> None) tag_list)"

definition as_event :: "raw_event \<Rightarrow> event" where
  "as_event ev =
     \<lparr>event_id = raw_id ev, pubkey = raw_pubkey ev, created_at = raw_created_at ev,
      kind = raw_kind ev,
      tags = (case raw_tags ev of None \<Rightarrow> [] | Some tag_list \<Rightarrow> List.map_filter (\<lambda>t. t) tag_list),
      content = raw_content ev\<rparr>"

section \<open>Relays: \<^verbatim>\<open>collectFromRelay\<close> and \<^verbatim>\<open>fetchVotesForPost\<close>\<close>

text \<open>
  \<^verbatim>\<open>
  collectFromRelay(relay, filters, timeoutMs = 3000) {
    return new Promise((resolve) => {
      const out = {}
      const sub = relay.sub(filters)
      sub.on('event', (ev) => { out[ev.id] = ev })
      setTimeout(() => { try { sub.unsub() } catch {} ; resolve(Object.values(out)) }, timeoutMs)
    })
  }
  async fetchVotesForPost(eventIdHex, timeoutMs = 4000) {
    const results = []
    for (const relay of this.relays) {
      try {
        const events = await this.collectFromRelay(relay, filters, timeoutMs)
        results.push(...events)
      } catch (e) { console.warn('vote fetch error on relay', relay.url, e) }
    }
    return results
  }
  \<close>
  A relay is modelled by what it does when used: \<open>sub_events\<close> is \<open>None\<close> when
  \<^verbatim>\<open>relay.sub\<close> throws, and otherwise the events the subscription hands to its
  \<^verbatim>\<open>'event'\<close> listener before the timer fires, in order; \<open>status\<close> is \<^verbatim>\<open>relay.status\<close>
  (1 is connected); \<open>publish\<close> is what \<^verbatim>\<open>relay.publish(ev)\<close> does. An exception thrown by
  the executor of a \<^verbatim>\<open>Promise\<close> rejects the promise: \<open>Inl\<close>. An exception of
  \<^verbatim>\<open>sub.unsub()\<close> is swallowed by the empty \<^verbatim>\<open>catch\<close>, so the result does not depend on it.
  The object \<^verbatim>\<open>out\<close> is keyed by event id; its values come in the order the keys were first
  written (ids are 64 hexadecimal characters, never array indices).
\<close>

datatype publish_outcome = Accepted | Rejected | Throws

datatype error = SubscribeError

record relay =
  url :: string
  status :: int
  sub_events :: "event list option"
  publish :: publish_outcome

definition collectFromRelay :: "relay \<Rightarrow> error + event list" where
  "collectFromRelay r =
     (case sub_events r of
        None \<Rightarrow> Inl SubscribeError
      | Some evs \<Rightarrow> Inr (map snd (fold (\<lambda>ev out. AList.update (event_id ev) ev out) evs [])))"

definition fetchVotesForPost :: "relay list \<Rightarrow> event list" where
  "fetchVotesForPost rs =
     fold (\<lambda>r results. case collectFromRelay r of
                          Inl e \<Rightarrow> results
                        | Inr events \<Rightarrow> results @ events) rs []"

section \<open>The client: feed buffer, posting and voting\<close>

text \<open>
  The fields of \<^verbatim>\<open>NostrClient\<close> that the operations below read or write. \<open>feed\<close> is the
  list of notes shown in the feed element, the top one first.
\<close>

record client =
  privateKey :: "string option"
  publicKey :: "string option"
  relays :: "relay list"
  connectedRelays :: "string set"
  seenIds :: "string set"
  buffer :: "event list"
  localVotes :: "string \<rightharpoonup> int"
  feed :: "event list"

text \<open>
  \<^verbatim>\<open>renderNote\<close> inserts the note at the top (\<^verbatim>\<open>toTop\<close>) or at the bottom and then removes
  last children while there are more than 200.
\<close>

definition renderNote :: "event \<Rightarrow> bool \<Rightarrow> event list \<Rightarrow> event list" where
  "renderNote ev toTop f = take 200 (if toTop then ev # f else f @ [ev])"

text \<open>
  \<^verbatim>\<open>
  bufferIncoming(ev) {
    if (!ev?.id || this.seenIds.has(ev.id)) return
    this.seenIds.add(ev.id)
    this.buffer.push(ev)
  }
  \<close>
\<close>

definition bufferIncoming :: "event \<Rightarrow> client \<Rightarrow> client" where
  "bufferIncoming ev c =
     (if event_id ev = [] \<or> event_id ev \<in> seenIds c then c
      else c\<lparr>seenIds := insert (event_id ev) (seenIds c), buffer := buffer c @ [ev]\<rparr>)"

text \<open>
  \<^verbatim>\<open>
  flushBufferToFeed() {
    if (!this.buffer.length) return
    this.buffer.sort((a, b) => (b.created_at || 0) - (a.created_at || 0))
    for (const ev of this.buffer) this.renderNote(ev, { toTop: true })
    this.buffer = []
  }
  \<close>
  \<^verbatim>\<open>Array.prototype.sort\<close> is stable, as \<open>sort_key\<close> is. The result is the sequence of
  notes in the order the loop hands them to \<^verbatim>\<open>renderNote\<close>, and the new state.
\<close>

definition flushBufferToFeed :: "client \<Rightarrow> event list \<times> client" where
  "flushBufferToFeed c =
     (if buffer c = [] then ([], c)
      else (let sorted_buffer = sort_key (\<lambda>ev. - created_or_0 ev) (buffer c)
            in (sorted_buffer,
                c\<lparr>feed := fold (\<lambda>ev f. renderNote ev True f) sorted_buffer (feed c),
                  buffer := []\<rparr>)))"

text \<open>
  \<^verbatim>\<open>publishNote\<close>: \<open>text_content\<close> is the trimmed content of the text area and \<open>now\<close>
  the clock in seconds. With no key, \<^verbatim>\<open>finishEvent\<close> throws inside the \<^verbatim>\<open>try\<close> and nothing
  is rendered. The note is rendered at once ("optimistic render"), then published.
\<close>

definition publishNote ::
  "(unsigned \<Rightarrow> string \<Rightarrow> event) \<Rightarrow> int \<Rightarrow> string \<Rightarrow> client \<Rightarrow> client" where
  "publishNote finishEvent now text_content c =
     (if text_content = [] then c
      else if connectedRelays c = {} then c
      else (case privateKey c of
              None \<Rightarrow> c
            | Some sk \<Rightarrow>
                (let ev = finishEvent
                            \<lparr>u_kind = KIND_NOTE, u_created_at = Some now, u_tags = [],
                             u_content = text_content\<rparr> sk
                 in c\<lparr>feed := renderNote ev True (feed c)\<rparr>)))"

text \<open>
  \<^verbatim>\<open>
  async sendVote(authorHex, eventIdHex, sign) {
    if (!this.privateKey || !this.publicKey) return this.toast('No keys loaded', 'error')
    const stake = 0
    const powBits = 8
    const current = this.localVotes[eventIdHex] || 0
    let finalSign = sign
    if (current === sign) finalSign = 0
    const unsigned = { kind: KIND_KARMA_VOTE, created_at: ..., tags: [['p', authorHex],
      ['e', eventIdHex], ['v', String(finalSign)], ...(stake > 0 ? [...] : []),
      ['client', 'nostr_karma_postvote']], content: '' }
    const ev = mineAndFinish(unsigned, this.privateKey, powBits, 15000)
    try {
      await Promise.allSettled(this.relays.map(r => r.status === 1 && r.publish(ev)))
      this.localVotes[eventIdHex] = finalSign
      ...
      if (finalSign === 0) this.toast('Vote cleared')
      else this.toast(finalSign > 0 ? 'Upvoted' : 'Downvoted')
    } catch (e) { this.toast('Vote failed', 'error') }
  }
  \<close>
  \<^verbatim>\<open>Promise.allSettled\<close> never rejects: a relay whose \<^verbatim>\<open>publish\<close> promise rejects, or
  that is not connected, does not reach the \<^verbatim>\<open>catch\<close>. Only an exception thrown by a
  \<^verbatim>\<open>publish\<close> call itself, while \<^verbatim>\<open>map\<close> runs, does.
\<close>

datatype toast = No_keys_loaded | Vote_cleared | Upvoted | Downvoted | Vote_failed

record vote_result =
  vr_client :: client
  vr_toast :: toast
  vr_event :: "event option"

definition toggle_sign :: "(string \<rightharpoonup> int) \<Rightarrow> string \<Rightarrow> int \<Rightarrow> int" where
  "toggle_sign votes eventIdHex s =
     (let current = (case votes eventIdHex of None \<Rightarrow> 0 | Some v \<Rightarrow> v)
      in if current = s then 0 else s)"

definition vote_payload :: "int \<Rightarrow> string \<Rightarrow> string \<Rightarrow> int \<Rightarrow> unsigned" where
  "vote_payload now authorHex eventIdHex finalSign =
     \<lparr>u_kind = KIND_KARMA_VOTE, u_created_at = Some now,
      u_tags = [[''p'', authorHex], [''e'', eventIdHex], [''v'', String_int finalSign],
                [''client'', ''nostr_karma_postvote'']],
      u_content = []\<rparr>"

definition publish_throws :: "relay list \<Rightarrow> bool" where
  "publish_throws rs = list_ex (\<lambda>r. status r = 1 \<and> publish r = Throws) rs"

definition sendVote ::
  "(unsigned \<Rightarrow> string \<Rightarrow> event) \<Rightarrow> int \<Rightarrow> string \<Rightarrow> string \<Rightarrow> int \<Rightarrow> client \<Rightarrow> vote_result" where
  "sendVote finishEvent now authorHex eventIdHex s c =
     (case privateKey c of
        None \<Rightarrow> \<lparr>vr_client = c, vr_toast = No_keys_loaded, vr_event = None\<rparr>
      | Some sk \<Rightarrow>
          if sk = [] \<or> publicKey c = None \<or> publicKey c = Some []
          then \<lparr>vr_client = c, vr_toast = No_keys_loaded, vr_event = None\<rparr>
          else (let finalSign = toggle_sign (localVotes c) eventIdHex s;
                    ev = fst (mineAndFinish finishEvent
                                (vote_payload now authorHex eventIdHex finalSign) sk 8 15000)
                in if publish_throws (relays c)
                   then \<lparr>vr_client = c, vr_toast = Vote_failed, vr_event = Some ev\<rparr>
                   else \<lparr>vr_client = c\<lparr>localVotes := (localVotes c)(eventIdHex \<mapsto> finalSign)\<rparr>,
                         vr_toast = (if finalSign = 0 then Vote_cleared
                                     else if finalSign > 0 then Upvoted else Downvoted),
                         vr_event = Some ev\<rparr>))"

text \<open>
  A stand-in for \<^verbatim>\<open>finishEvent\<close> at concrete inputs: it keeps the payload's fields, as
  \<^verbatim>\<open>finishEvent\<close> does, takes the key as the public key and a fixed string as the id.
\<close>

definition plain_finishEvent :: "unsigned \<Rightarrow> string \<Rightarrow> event" where
  "plain_finishEvent u sk =
     \<lparr>event_id = ''ab54'', pubkey = sk, created_at = u_created_at u, kind = u_kind u,
      tags = u_tags u, content = u_content u\<rparr>"

section \<open>Auxiliary definitions for the statements\<close>

text \<open>
  What \<open>latestByVoter\<close> holds for a voter whose valid votes, in input order, are \<open>vs\<close>:
  nothing when there are none, otherwise the first vote among those with the greatest
  timestamp.
\<close>

definition retained :: "(int \<times> int) list \<Rightarrow> latest option \<Rightarrow> bool" where
  "retained vs r =
     (case r of
        None \<Rightarrow> vs = []
      | Some l \<Rightarrow> find (\<lambda>v. fst v = ts l) vs = Some (ts l, sign l) \<and> (\<forall>v \<in> set vs. fst v \<le> ts l))"

text \<open>A vote event as \<^verbatim>\<open>sendVote\<close> builds it, for concrete inputs.\<close>

definition vote_event :: "string \<Rightarrow> string \<Rightarrow> int \<Rightarrow> string \<Rightarrow> event" where
  "vote_event i voter t v =
     \<lparr>event_id = i, pubkey = voter, created_at = Some t, kind = KIND_KARMA_VOTE,
      tags = [[''p'', ''author''], [''e'', ''target''], [''v'', v],
              [''client'', ''nostr_karma_postvote'']],
      content = []\<rparr>"

definition is_tag :: "string \<Rightarrow> string list \<Rightarrow> bool" where
  "is_tag name t = (case t of [] \<Rightarrow> False | x # _ \<Rightarrow> x = name)"

text \<open>A raw vote event with the given tags, for concrete inputs.\<close>

definition raw_vote :: "string \<Rightarrow> string \<Rightarrow> int \<Rightarrow> string list option list option \<Rightarrow> raw_event" where
  "raw_vote i voter t tag_list =
     \<lparr>raw_id = i, raw_pubkey = voter, raw_created_at = Some t, raw_kind = KIND_KARMA_VOTE,
      raw_tags = tag_list, raw_content = []\<rparr>"

text \<open>
  A client whose keys are loaded, with no relay and nothing seen yet, and a note, for
  concrete inputs.
\<close>

definition fresh_client :: client where
  "fresh_client =
     \<lparr>privateKey = Some ''sk'', publicKey = Some ''pk'', relays = [], connectedRelays = {},
      seenIds = {}, buffer = [], localVotes = Map.empty, feed = []\<rparr>"

definition note_event :: "string \<Rightarrow> int \<Rightarrow> event" where
  "note_event i t =
     \<lparr>event_id = i, pubkey = ''alice'', created_at = Some t, kind = KIND_NOTE, tags = [],
      content = ''gm''\<rparr>"

section \<open>Decimal strings: facts\<close>

lemma String_nat_digit: "n < 10 \<Longrightarrow> String_nat n = [digit_char n]"
  by (simp add: String_nat.simps)

section \<open>Vote resolution: facts\<close>

lemma fold_sign_sum:
  "fold (\<lambda>(voter, l) score. score + sign l) m a = a + sum_list (map (\<lambda>kv. sign (snd kv)) m)"
  by (induction m arbitrary: a) (auto simp: case_prod_beta)

lemma computeScore_sum_list:
  "computeScore Number evs = sum_list (map (\<lambda>kv. sign (snd kv)) (latestByVoter Number evs))"
  by (simp add: computeScore_def fold_sign_sum)

lemma latestByVoter_Nil: "latestByVoter Number [] = []"
  by (simp add: latestByVoter_def)

lemma latestByVoter_snoc:
  "latestByVoter Number (evs @ [e]) = score_step Number e (latestByVoter Number evs)"
  by (simp add: latestByVoter_def)

lemma distinct_score_step:
  "distinct (map fst m) \<Longrightarrow> distinct (map fst (score_step Number e m))"
  by (auto simp: score_step_def distinct_update split: option.splits prod.splits)

lemma distinct_latestByVoter: "distinct (map fst (latestByVoter Number evs))"
  by (induction evs rule: rev_induct)
     (simp_all add: latestByVoter_Nil latestByVoter_snoc distinct_score_step)

lemma vote_of_pubkey: "vote_of Number e = Some (p, t, s) \<Longrightarrow> pubkey e = p \<and> p \<noteq> []"
  by (auto simp: vote_of_def split: option.splits if_splits)

lemma vote_of_sign: "vote_of Number e = Some (p, t, s) \<Longrightarrow> s = 1 \<or> s = - 1 \<or> s = 0"
  by (auto simp: vote_of_def split: option.splits if_splits)

lemma votes_by_Nil: "votes_by Number p [] = []"
  by (simp add: votes_by_def map_filter_simps)

lemma votes_by_snoc:
  "votes_by Number p (evs @ [e]) =
     votes_by Number p evs @
       (case vote_of Number e of
          None \<Rightarrow> []
        | Some (voter, t, s) \<Rightarrow> if voter = p then [(t, s)] else [])"
  by (auto simp: votes_by_def map_filter_def split: option.splits)

lemma set_votes_by:
  "set (votes_by Number p evs) = {(t, s). \<exists>e \<in> set evs. vote_of Number e = Some (p, t, s)}"
  by (induction evs rule: rev_induct)
     (auto simp: votes_by_Nil votes_by_snoc split: option.splits if_splits)

lemma map_of_score_step_other:
  "vote_of Number e = Some (q, t, s) \<Longrightarrow> q \<noteq> p \<Longrightarrow> map_of (score_step Number e m) p = map_of m p"
  by (auto simp: score_step_def update_conv' split: option.splits)

lemma map_of_score_step_None:
  "vote_of Number e = None \<Longrightarrow> score_step Number e m = m"
  by (simp add: score_step_def)

lemma map_of_score_step_same:
  "vote_of Number e = Some (p, t, s) \<Longrightarrow>
   map_of (score_step Number e m) p =
     (case map_of m p of
        None \<Rightarrow> Some \<lparr>ts = t, sign = s\<rparr>
      | Some prev \<Rightarrow> if t > ts prev then Some \<lparr>ts = t, sign = s\<rparr> else Some prev)"
  by (auto simp: score_step_def update_conv' split: option.splits)

lemma retained_latestByVoter:
  "retained (votes_by Number p evs) (map_of (latestByVoter Number evs) p)"
proof (induction evs rule: rev_induct)
  case Nil
  show ?case by (simp add: retained_def latestByVoter_Nil votes_by_Nil)
next
  case (snoc e evs)
  show ?case
  proof (cases "vote_of Number e")
    case None
    with snoc show ?thesis
      by (simp add: latestByVoter_snoc votes_by_snoc map_of_score_step_None)
  next
    case (Some v)
    obtain q t s where v: "v = (q, t, s)" by (cases v)
    show ?thesis
    proof (cases "q = p")
      case False
      with snoc Some v show ?thesis
        by (simp add: latestByVoter_snoc votes_by_snoc map_of_score_step_other)
    next
      case True
      have fnd: "find P (xs @ [x]) = (case find P xs of None \<Rightarrow> (if P x then Some x else None) | Some y \<Rightarrow> Some y)" for P and xs :: "(int \<times> int) list" and x
        by (induction xs) auto
      from True Some v have step: "map_of (latestByVoter Number (evs @ [e])) p =
        (case map_of (latestByVoter Number evs) p of
        None \<Rightarrow> Some \<lparr>ts = t, sign = s\<rparr>
      | Some prev \<Rightarrow> if t > ts prev then Some \<lparr>ts = t, sign = s\<rparr> else Some prev)"
        by (simp add: latestByVoter_snoc map_of_score_step_same)
      from True Some v have vs: "votes_by Number p (evs @ [e]) = votes_by Number p evs @ [(t, s)]"
        by (simp add: votes_by_snoc)
      show ?thesis
      proof (cases "map_of (latestByVoter Number evs) p")
        case None
        with snoc have "votes_by Number p evs = []" by (simp add: retained_def)
        with None step vs show ?thesis by (simp add: retained_def)
      next
        case (Some prev)
        with snoc have f: "find (\<lambda>v. fst v = ts prev) (votes_by Number p evs) = Some (ts prev, sign prev)"
          and m: "\<forall>v \<in> set (votes_by Number p evs). fst v \<le> ts prev"
          by (simp_all add: retained_def)
        show ?thesis
        proof (cases "t > ts prev")
          case True
          have "find (\<lambda>v. fst v = t) (votes_by Number p evs) = None"
            using m True by (auto simp: find_None_iff)
          with True Some step vs m show ?thesis
            by (auto simp: retained_def fnd)
        next
          case False
          with Some step vs m f show ?thesis
            by (auto simp: retained_def fnd)
        qed
      qed
    qed
  qed
qed


lemma find_Some_in_set: "find P xs = Some x \<Longrightarrow> x \<in> set xs \<and> P x"
  by (induction xs) (auto split: if_splits)

lemma latest_in_votes:
  "map_of (latestByVoter Number evs) p = Some l \<Longrightarrow> (ts l, sign l) \<in> set (votes_by Number p evs)"
  using retained_latestByVoter [of Number p evs]
  by (auto simp: retained_def dest: find_Some_in_set)

lemma latest_greatest:
  "map_of (latestByVoter Number evs) p = Some l \<Longrightarrow> v \<in> set (votes_by Number p evs) \<Longrightarrow> fst v \<le> ts l"
  using retained_latestByVoter [of Number p evs] by (auto simp: retained_def)

lemma latest_first:
  "map_of (latestByVoter Number evs) p = Some l \<Longrightarrow>
   find (\<lambda>v. fst v = ts l) (votes_by Number p evs) = Some (ts l, sign l)"
  using retained_latestByVoter [of Number p evs] by (auto simp: retained_def)

lemma latest_None_iff:
  "map_of (latestByVoter Number evs) p = None \<longleftrightarrow> votes_by Number p evs = []"
  using retained_latestByVoter [of Number p evs]
  by (cases "map_of (latestByVoter Number evs) p") (auto simp: retained_def)

lemma retained_unique:
  assumes "retained vs r" and "retained vs r'"
  shows "r = r'"
proof (cases r)
  case None
  with assms show ?thesis by (cases r') (auto simp: retained_def)
next
  case (Some l)
  with assms(1) have fl: "find (\<lambda>v. fst v = ts l) vs = Some (ts l, sign l)"
    and ml: "\<forall>v \<in> set vs. fst v \<le> ts l"
    by (simp_all add: retained_def)
  from fl have inl: "(ts l, sign l) \<in> set vs" by (auto dest: find_Some_in_set)
  show ?thesis
  proof (cases r')
    case None
    with assms(2) inl show ?thesis by (simp add: retained_def)
  next
    case l': (Some l')
    with assms(2) have fl': "find (\<lambda>v. fst v = ts l') vs = Some (ts l', sign l')"
      and ml': "\<forall>v \<in> set vs. fst v \<le> ts l'"
      by (simp_all add: retained_def)
    from fl' have inl': "(ts l', sign l') \<in> set vs" by (auto dest: find_Some_in_set)
    from ml inl' ml' inl have "ts l = ts l'" by fastforce
    with fl fl' have "sign l = sign l'" by simp
    with \<open>ts l = ts l'\<close> Some l' show ?thesis by simp
  qed
qed

lemma latest_determined:
  "votes_by Number p evs = votes_by Number p evs' \<Longrightarrow>
   map_of (latestByVoter Number evs) p = map_of (latestByVoter Number evs') p"
  using retained_latestByVoter [of Number p evs] retained_latestByVoter [of Number p evs']
  by (auto intro: retained_unique)

lemma sum_list_alist:
  assumes "distinct (map fst al)"
  shows "sum_list (map (\<lambda>kv. f (snd kv)) al) = (\<Sum>k \<in> dom (map_of al). f (the (map_of al k)))"
proof -
  from assms have d: "distinct al" by (rule distinct_map [THEN iffD1, THEN conjunct1])
  from assms have inj: "inj_on fst (set al)" by (simp add: distinct_map)
  have "sum_list (map (\<lambda>kv. f (snd kv)) al) = (\<Sum>kv \<in> set al. f (snd kv))"
    using d by (simp add: sum_list_distinct_conv_sum_set)
  also have "\<dots> = (\<Sum>kv \<in> set al. f (the (map_of al (fst kv))))"
    using assms by (intro sum.cong) auto
  also have "\<dots> = (\<Sum>k \<in> fst ` set al. f (the (map_of al k)))"
    using inj by (simp add: sum.reindex)
  finally show ?thesis by (simp add: dom_map_of_conv_image_fst)
qed

lemma computeScore_sum_dom:
  "computeScore Number evs =
     (\<Sum>p \<in> dom (map_of (latestByVoter Number evs)). sign (the (map_of (latestByVoter Number evs) p)))"
  by (simp add: computeScore_sum_list sum_list_alist distinct_latestByVoter)

lemma computeScore_cong:
  assumes "\<And>p. map_of (latestByVoter Number evs) p = map_of (latestByVoter Number evs') p"
  shows "computeScore Number evs = computeScore Number evs'"
proof -
  from assms have "map_of (latestByVoter Number evs) = map_of (latestByVoter Number evs')"
    by (rule ext)
  then show ?thesis by (simp add: computeScore_sum_dom)
qed

lemma votes_by_filter_other:
  "q \<noteq> p \<Longrightarrow> votes_by Number q (filter (\<lambda>e. pubkey e \<noteq> p) evs) = votes_by Number q evs"
  by (induction evs rule: rev_induct)
     (auto simp: votes_by_Nil votes_by_snoc dest: vote_of_pubkey split: option.splits)

lemma votes_by_filter_same:
  "votes_by Number p (filter (\<lambda>e. pubkey e \<noteq> p) evs) = []"
  by (induction evs rule: rev_induct)
     (auto simp: votes_by_Nil votes_by_snoc dest: vote_of_pubkey split: option.splits)

lemma computeScore_contribution:
  assumes "map_of (latestByVoter Number evs) p = Some l"
  shows "computeScore Number evs = computeScore Number (filter (\<lambda>e. pubkey e \<noteq> p) evs) + sign l"
proof -
  let ?m = "map_of (latestByVoter Number evs)"
  let ?m' = "map_of (latestByVoter Number (filter (\<lambda>e. pubkey e \<noteq> p) evs))"
  have other: "?m' q = ?m q" if "q \<noteq> p" for q
    using that by (intro latest_determined votes_by_filter_other)
  have same: "?m' p = None"
    by (simp add: latest_None_iff votes_by_filter_same)
  have dom: "dom ?m = insert p (dom ?m')"
    using assms other same by (auto simp: dom_def) metis+
  have notin: "p \<notin> dom ?m'" using same by (simp add: dom_def)
  have fin: "finite (dom ?m')" by (rule finite_dom_map_of)
  have "computeScore Number evs = (\<Sum>q \<in> insert p (dom ?m'). sign (the (?m q)))"
    by (simp add: computeScore_sum_dom dom)
  also have "\<dots> = sign (the (?m p)) + (\<Sum>q \<in> dom ?m'. sign (the (?m q)))"
    using notin fin by simp
  also have "(\<Sum>q \<in> dom ?m'. sign (the (?m q))) = (\<Sum>q \<in> dom ?m'. sign (the (?m' q)))"
  proof (rule sum.cong)
    fix q assume "q \<in> dom ?m'"
    with notin have "q \<noteq> p" by auto
    then show "sign (the (?m q)) = sign (the (?m' q))" by (simp add: other)
  qed simp
  finally show ?thesis using assms by (simp add: computeScore_sum_dom)
qed

lemma score_step_duplicate:
  assumes "e \<in> set evs"
  shows "score_step Number e (latestByVoter Number evs) = latestByVoter Number evs"
proof (cases "vote_of Number e")
  case None
  then show ?thesis by (simp add: map_of_score_step_None)
next
  case (Some v)
  obtain p t s where v: "v = (p, t, s)" by (cases v)
  with Some assms have mem: "(t, s) \<in> set (votes_by Number p evs)"
    by (auto simp: set_votes_by)
  then obtain l where l: "map_of (latestByVoter Number evs) p = Some l"
    using latest_None_iff [of Number evs p] by (cases "map_of (latestByVoter Number evs) p") auto
  with mem have "t \<le> ts l" using latest_greatest [of Number evs p l "(t, s)"] by simp
  with Some v l show ?thesis by (simp add: score_step_def)
qed

lemma latest_set_determined:
  assumes sets: "set (votes_by Number p evs) = set (votes_by Number p evs')"
    and ties: "\<And>t s s'. (t, s) \<in> set (votes_by Number p evs) \<Longrightarrow> (t, s') \<in> set (votes_by Number p evs) \<Longrightarrow> s = s'"
  shows "map_of (latestByVoter Number evs) p = map_of (latestByVoter Number evs') p"
proof (cases "map_of (latestByVoter Number evs) p")
  case None
  then have "votes_by Number p evs = []" by (simp add: latest_None_iff)
  with sets have "votes_by Number p evs' = []" by simp
  then have "map_of (latestByVoter Number evs') p = None" by (simp add: latest_None_iff)
  with None show ?thesis by simp
next
  case (Some l)
  then have inl: "(ts l, sign l) \<in> set (votes_by Number p evs)" by (rule latest_in_votes)
  with sets have "votes_by Number p evs' \<noteq> []" by auto
  then obtain l' where l': "map_of (latestByVoter Number evs') p = Some l'"
    using latest_None_iff [of Number evs' p] by (cases "map_of (latestByVoter Number evs') p") auto
  then have inl': "(ts l', sign l') \<in> set (votes_by Number p evs')" by (rule latest_in_votes)
  have "ts l' \<le> ts l" using latest_greatest [OF Some, of "(ts l', sign l')"] inl' sets by simp
  moreover have "ts l \<le> ts l'" using latest_greatest [OF l', of "(ts l, sign l)"] inl sets by simp
  ultimately have t: "ts l = ts l'" by simp
  with inl inl' sets have "sign l = sign l'" using ties [of "ts l" "sign l" "sign l'"] by simp
  with t Some l' show ?thesis by simp
qed

section \<open>Vote resolution: claims\<close>

lemmas eval_score = computeScore_def latestByVoter_def score_step_def vote_of_def is_v_tag_def
  sign_of_def Number_lit_def unsigned_lit_def digit_val_def created_or_0_def vote_event_def
  votes_by_def map_filter_simps

text \<open>
  Claim C1. For every list of vote events and every voter, \<open>computeScore\<close> keeps at most
  one entry per voter; it keeps none exactly when the voter has no valid vote, and otherwise
  the entry is one of the voter's valid votes, no valid vote of the voter has a greater
  timestamp, it is the first vote with that timestamp, and its sign is what the voter adds
  to the score (compared with the score of the input without the voter's events). So a
  voter whose valid votes are +1 at timestamp 10 and -1 at timestamp 20, in any order and
  among any other events, contributes exactly -1.
\<close>

theorem computeScore_latest_wins:
  "distinct (map fst (latestByVoter Number evs)) \<and>
   (map_of (latestByVoter Number evs) p = None \<longleftrightarrow> votes_by Number p evs = []) \<and>
   (\<forall>l. map_of (latestByVoter Number evs) p = Some l \<longrightarrow>
      (ts l, sign l) \<in> set (votes_by Number p evs) \<and>
      (\<forall>v \<in> set (votes_by Number p evs). fst v \<le> ts l) \<and>
      find (\<lambda>v. fst v = ts l) (votes_by Number p evs) = Some (ts l, sign l) \<and>
      computeScore Number evs =
        computeScore Number (filter (\<lambda>e. pubkey e \<noteq> p) evs) + sign l) \<and>
   (mset (votes_by Number p evs) = {#(10, 1), (20, - 1)#} \<longrightarrow>
      computeScore Number evs = computeScore Number (filter (\<lambda>e. pubkey e \<noteq> p) evs) - 1)"
proof (intro conjI allI impI ballI)
  show "distinct (map fst (latestByVoter Number evs))"
    by (rule distinct_latestByVoter)
  show "map_of (latestByVoter Number evs) p = None \<longleftrightarrow> votes_by Number p evs = []"
    by (rule latest_None_iff)
next
  fix l assume "map_of (latestByVoter Number evs) p = Some l"
  then show "(ts l, sign l) \<in> set (votes_by Number p evs)"
    and "find (\<lambda>v. fst v = ts l) (votes_by Number p evs) = Some (ts l, sign l)"
    and "computeScore Number evs =
        computeScore Number (filter (\<lambda>e. pubkey e \<noteq> p) evs) + sign l"
    by (simp_all add: latest_in_votes latest_first computeScore_contribution)
next
  fix l v assume "map_of (latestByVoter Number evs) p = Some l" "v \<in> set (votes_by Number p evs)"
  then show "fst v \<le> ts l" by (rule latest_greatest)
next
  assume m: "mset (votes_by Number p evs) = {#(10, 1), (20, - 1)#}"
  then have "set_mset (mset (votes_by Number p evs)) = {(10, 1), (20, - 1)}" by simp
  then have s: "set (votes_by Number p evs) = {(10, 1), (20, - 1)}" by simp
  then have "votes_by Number p evs \<noteq> []" by auto
  then obtain l where l: "map_of (latestByVoter Number evs) p = Some l"
    using latest_None_iff [of Number evs p] by (cases "map_of (latestByVoter Number evs) p") auto
  from latest_in_votes [OF l] s have "(ts l, sign l) = (10, 1) \<or> (ts l, sign l) = (20, - 1)"
    by simp
  moreover from latest_greatest [OF l, of "(20, - 1)"] s have "20 \<le> ts l" by simp
  ultimately have "sign l = - 1" by auto
  with computeScore_contribution [OF l]
  show "computeScore Number evs = computeScore Number (filter (\<lambda>e. pubkey e \<noteq> p) evs) - 1"
    by simp
qed

text \<open>The theorem of C1 at a concrete input: alice votes +1 at 10 and -1 at 20, bob +1 at 5.\<close>

theorem computeScore_latest_wins_witness:
  "mset (votes_by Number_lit ''alice''
           [vote_event ''01'' ''alice'' 10 ''1'', vote_event ''02'' ''bob'' 5 ''1'',
            vote_event ''03'' ''alice'' 20 ''-1'']) = {#(10, 1), (20, - 1)#} \<and>
   computeScore Number_lit [vote_event ''02'' ''bob'' 5 ''1''] = 1 \<and>
   computeScore Number_lit
     [vote_event ''01'' ''alice'' 10 ''1'', vote_event ''02'' ''bob'' 5 ''1'',
      vote_event ''03'' ''alice'' 20 ''-1''] = 0"
proof -
  let ?evs = "[vote_event ''01'' ''alice'' 10 ''1'', vote_event ''02'' ''bob'' 5 ''1'',
            vote_event ''03'' ''alice'' 20 ''-1'']"
  have h: "mset (votes_by Number_lit ''alice'' ?evs) = {#(10, 1), (20, - 1)#}"
    by (simp add: eval_score)
  have f: "filter (\<lambda>e. pubkey e \<noteq> ''alice'') ?evs = [vote_event ''02'' ''bob'' 5 ''1'']"
    by (simp add: vote_event_def)
  have b: "computeScore Number_lit [vote_event ''02'' ''bob'' 5 ''1''] = 1"
    by (simp add: eval_score)
  from computeScore_latest_wins [of Number_lit ?evs "''alice''"] h
  have "computeScore Number_lit ?evs =
          computeScore Number_lit (filter (\<lambda>e. pubkey e \<noteq> ''alice'') ?evs) - 1"
    by blast
  with f b have "computeScore Number_lit ?evs = 0" by simp
  with h b show ?thesis by simp
qed

text \<open>
  Claim C2, as amended. The score is the same for two inputs that are permutations of each
  other provided no voter has two valid votes with the same timestamp and different signs;
  and appending a duplicate of an event already in the input never changes the score.
\<close>

theorem computeScore_order_insensitive:
  "(mset evs = mset evs' \<and>
    (\<forall>e1 \<in> set evs. \<forall>e2 \<in> set evs. \<forall>p t s1 s2.
       vote_of Number e1 = Some (p, t, s1) \<and> vote_of Number e2 = Some (p, t, s2) \<longrightarrow> s1 = s2)
    \<longrightarrow> computeScore Number evs = computeScore Number evs') \<and>
   (e \<in> set evs \<longrightarrow> computeScore Number (evs @ [e]) = computeScore Number evs)"
proof (intro conjI impI)
  assume a: "mset evs = mset evs' \<and>
    (\<forall>e1 \<in> set evs. \<forall>e2 \<in> set evs. \<forall>p t s1 s2.
       vote_of Number e1 = Some (p, t, s1) \<and> vote_of Number e2 = Some (p, t, s2) \<longrightarrow> s1 = s2)"
  then have "set evs = set evs'" by (metis mset_eq_setD)
  then have sets: "set (votes_by Number p evs) = set (votes_by Number p evs')" for p
    by (simp add: set_votes_by)
  have ties: "s = s'"
    if "(t, s) \<in> set (votes_by Number p evs)" "(t, s') \<in> set (votes_by Number p evs)"
    for p t s s'
    using that a by (auto simp: set_votes_by)
  show "computeScore Number evs = computeScore Number evs'"
    by (rule computeScore_cong, rule latest_set_determined [OF sets]) (rule ties)
next
  assume "e \<in> set evs"
  then show "computeScore Number (evs @ [e]) = computeScore Number evs"
    by (simp add: computeScore_def latestByVoter_snoc score_step_duplicate)
qed

text \<open>The theorem of C2 at a concrete input.\<close>

theorem computeScore_order_insensitive_witness:
  "computeScore Number_lit
     [vote_event ''01'' ''alice'' 10 ''1'', vote_event ''02'' ''bob'' 5 ''-1'',
      vote_event ''03'' ''alice'' 20 ''-1''] = - 2 \<and>
   computeScore Number_lit
     [vote_event ''03'' ''alice'' 20 ''-1'', vote_event ''02'' ''bob'' 5 ''-1'',
      vote_event ''01'' ''alice'' 10 ''1''] = - 2 \<and>
   computeScore Number_lit
     [vote_event ''01'' ''alice'' 10 ''1'', vote_event ''02'' ''bob'' 5 ''-1'',
      vote_event ''03'' ''alice'' 20 ''-1'', vote_event ''01'' ''alice'' 10 ''1''] = - 2"
proof -
  let ?a = "vote_event ''01'' ''alice'' 10 ''1''"
  let ?b = "vote_event ''02'' ''bob'' 5 ''-1''"
  let ?c = "vote_event ''03'' ''alice'' 20 ''-1''"
  have v: "computeScore Number_lit [?a, ?b, ?c] = - 2"
    by (simp add: eval_score)
  have m: "mset [?a, ?b, ?c] = mset [?c, ?b, ?a]"
    by (simp add: add_mset_commute)
  have t: "\<forall>e1 \<in> set [?a, ?b, ?c]. \<forall>e2 \<in> set [?a, ?b, ?c]. \<forall>p t s1 s2.
       vote_of Number_lit e1 = Some (p, t, s1) \<and> vote_of Number_lit e2 = Some (p, t, s2) \<longrightarrow> s1 = s2"
    by (simp add: eval_score)
  have i: "?a \<in> set [?a, ?b, ?c]" by simp
  from computeScore_order_insensitive [of "[?a, ?b, ?c]" "[?c, ?b, ?a]" Number_lit ?a] m t i
  have "computeScore Number_lit [?a, ?b, ?c] = computeScore Number_lit [?c, ?b, ?a]"
    and "computeScore Number_lit ([?a, ?b, ?c] @ [?a]) = computeScore Number_lit [?a, ?b, ?c]"
    by blast+
  with v show ?thesis by simp
qed

text \<open>
  Claim C2 as stated fails: two valid votes of one voter with the same timestamp and
  different signs give the score 1 in one order and -1 in the other (the comparison
  \<^verbatim>\<open>ts > prev.ts\<close> is strict, so the vote that comes first stays).
\<close>

theorem computeScore_order_counterexample:
  "mset [vote_event ''01'' ''alice'' 10 ''1'', vote_event ''02'' ''alice'' 10 ''-1'']
     = mset [vote_event ''02'' ''alice'' 10 ''-1'', vote_event ''01'' ''alice'' 10 ''1''] \<and>
   computeScore Number_lit
     [vote_event ''01'' ''alice'' 10 ''1'', vote_event ''02'' ''alice'' 10 ''-1''] = 1 \<and>
   computeScore Number_lit
     [vote_event ''02'' ''alice'' 10 ''-1'', vote_event ''01'' ''alice'' 10 ''1''] = - 1"
  by (simp add: eval_score add_mset_commute)

section \<open>Malformed votes\<close>

lemma find_filter_implied:
  "(\<And>x. P x \<Longrightarrow> Q x) \<Longrightarrow> find P (filter Q xs) = find P xs"
  by (induction xs) auto

lemma is_v_tag_not_p_e: "is_v_tag t \<Longrightarrow> \<not> is_tag ''p'' t \<and> \<not> is_tag ''e'' t"
  by (auto simp: is_v_tag_def is_tag_def split: list.splits)

lemma vote_of_strip:
  "vote_of Number (ev\<lparr>tags := filter (\<lambda>t. \<not> is_tag ''p'' t \<and> \<not> is_tag ''e'' t) (tags ev)\<rparr>)
     = vote_of Number ev"
  by (simp add: vote_of_def created_or_0_def find_filter_implied is_v_tag_not_p_e
        split: option.splits)

lemma vote_of_None_iff:
  "vote_of Number ev = None \<longleftrightarrow>
     (find is_v_tag (tags ev) = None \<or>
      (\<exists>signTag. find is_v_tag (tags ev) = Some signTag \<and>
                 sign_of Number signTag \<noteq> Some 1 \<and> sign_of Number signTag \<noteq> Some (- 1) \<and>
                 sign_of Number signTag \<noteq> Some 0) \<or>
      pubkey ev = [])"
  by (auto simp: vote_of_def split: option.splits)

lemma latestByVoter_skip:
  "vote_of Number ev = None \<Longrightarrow> latestByVoter Number (xs @ ev # ys) = latestByVoter Number (xs @ ys)"
  by (simp add: latestByVoter_def map_of_score_step_None)

lemma score_step_vote_of:
  "vote_of Number e = vote_of Number e' \<Longrightarrow> score_step Number e m = score_step Number e' m"
  by (simp add: score_step_def)

lemma latestByVoter_strip:
  "latestByVoter Number
     (map (\<lambda>ev. ev\<lparr>tags := filter (\<lambda>t. \<not> is_tag ''p'' t \<and> \<not> is_tag ''e'' t) (tags ev)\<rparr>) evs)
   = latestByVoter Number evs"
proof -
  have "fold (score_step Number)
          (map (\<lambda>ev. ev\<lparr>tags := filter (\<lambda>t. \<not> is_tag ''p'' t \<and> \<not> is_tag ''e'' t) (tags ev)\<rparr>) evs) m
        = fold (score_step Number) evs m" for m
    by (induction evs arbitrary: m) (simp_all add: score_step_vote_of [OF vote_of_strip])
  then show ?thesis by (simp add: latestByVoter_def)
qed

text \<open>
  On raw events: an event whose tags are an array of arrays is read without an exception
  and as the event it is; a skipped event changes no result; missing tags and a
  \<^verbatim>\<open>null\<close> tag that the search reaches raise the \<^verbatim>\<open>TypeError\<close>.
\<close>

lemma find_v_tag_arrays:
  "list_all (\<lambda>t. t \<noteq> None) tag_list \<Longrightarrow>
   find_v_tag tag_list = Inr (find is_v_tag (List.map_filter (\<lambda>t. t) tag_list))"
proof (induction tag_list)
  case Nil
  then show ?case by (simp add: map_filter_simps)
next
  case (Cons t rest)
  then obtain x where "t = Some x" by auto
  with Cons show ?case by (simp add: map_filter_simps)
qed

lemma vote_of_raw_arrays:
  "tag_arrays ev \<Longrightarrow> vote_of_raw Number ev = Inr (vote_of Number (as_event ev))"
  by (auto simp: tag_arrays_def vote_of_raw_def vote_of_def as_event_def created_or_0_def
        find_v_tag_arrays split: option.splits)

lemma score_step_as_event:
  "tag_arrays ev \<Longrightarrow>
   score_loop_raw Number (ev # evs) m = score_loop_raw Number evs (score_step Number (as_event ev) m)"
  by (simp add: vote_of_raw_arrays score_step_def split: option.splits)

lemma score_loop_raw_arrays:
  "list_all tag_arrays evs \<Longrightarrow>
   score_loop_raw Number evs m = Inr (fold (score_step Number) (map as_event evs) m)"
proof (induction evs arbitrary: m)
  case Nil
  then show ?case by simp
next
  case (Cons ev evs)
  then have "tag_arrays ev" and "list_all tag_arrays evs" by simp_all
  then show ?case using Cons.IH by (simp only: score_step_as_event) simp
qed

lemma computeScore_raw_arrays:
  "list_all tag_arrays evs \<Longrightarrow>
   computeScore_raw Number evs = Inr (computeScore Number (map as_event evs))"
  by (simp add: computeScore_raw_def computeScore_def latestByVoter_def score_loop_raw_arrays)

lemma score_loop_raw_skip:
  "vote_of_raw Number ev = Inr None \<Longrightarrow>
   score_loop_raw Number (xs @ ev # ys) m = score_loop_raw Number (xs @ ys) m"
  by (induction xs arbitrary: m) (auto split: sum.splits option.splits)

lemma computeScore_raw_skip:
  "vote_of_raw Number ev = Inr None \<Longrightarrow>
   computeScore_raw Number (xs @ ev # ys) = computeScore_raw Number (xs @ ys)"
  by (simp add: computeScore_raw_def score_loop_raw_skip)

lemma computeScore_raw_no_tags:
  "raw_tags ev = None \<Longrightarrow> computeScore_raw Number (ev # evs) = Inl TypeError"
  by (simp add: computeScore_raw_def vote_of_raw_def)

lemma computeScore_raw_null_tag:
  "raw_tags ev = Some (None # rest) \<Longrightarrow> computeScore_raw Number (ev # evs) = Inl TypeError"
  by (simp add: computeScore_raw_def vote_of_raw_def)

text \<open>
  Claim C3, as amended. \<open>computeScore\<close> skips an event exactly when it has no \<^verbatim>\<open>v\<close> tag,
  or the value of its first \<^verbatim>\<open>v\<close> tag does not convert to 1, -1 or 0, or its pubkey is
  empty; a skipped event does not change the score, wherever it stands in the input. The
  \<^verbatim>\<open>p\<close> and \<^verbatim>\<open>e\<close> tags are never read: removing them from every event leaves the score
  as it is. No error is raised for events whose tags are an array of arrays: such an event
  passes the guards without an exception and as the typed event does, an input of such
  events returns a score, and an event that is skipped changes neither the score nor
  whether an error is raised, whatever the other events are.
\<close>

theorem computeScore_excludes_malformed:
  "(vote_of Number ev = None \<longleftrightarrow>
     (find is_v_tag (tags ev) = None \<or>
      (\<exists>signTag. find is_v_tag (tags ev) = Some signTag \<and>
                 sign_of Number signTag \<noteq> Some 1 \<and> sign_of Number signTag \<noteq> Some (- 1) \<and>
                 sign_of Number signTag \<noteq> Some 0) \<or>
      pubkey ev = [])) \<and>
   (vote_of Number ev = None \<longrightarrow>
      computeScore Number (xs @ ev # ys) = computeScore Number (xs @ ys)) \<and>
   computeScore Number
     (map (\<lambda>ev. ev\<lparr>tags := filter (\<lambda>t. \<not> is_tag ''p'' t \<and> \<not> is_tag ''e'' t) (tags ev)\<rparr>) evs)
   = computeScore Number evs \<and>
   (tag_arrays raw \<longrightarrow> vote_of_raw Number raw = Inr (vote_of Number (as_event raw))) \<and>
   (list_all tag_arrays raws \<longrightarrow>
      computeScore_raw Number raws = Inr (computeScore Number (map as_event raws))) \<and>
   (vote_of_raw Number raw = Inr None \<longrightarrow>
      computeScore_raw Number (rxs @ raw # rys) = computeScore_raw Number (rxs @ rys))"
  using vote_of_None_iff [of Number ev]
  by (simp add: computeScore_def latestByVoter_skip latestByVoter_strip vote_of_raw_arrays
        computeScore_raw_arrays computeScore_raw_skip)

lemmas eval_raw = computeScore_raw_def vote_of_raw_def raw_vote_def is_v_tag_def sign_of_def
  Number_lit_def unsigned_lit_def digit_val_def tag_arrays_def as_event_def map_filter_simps

text \<open>
  The theorem of C3 at concrete inputs: votes whose \<^verbatim>\<open>v\<close> tag is \<^verbatim>\<open>"2"\<close> or \<^verbatim>\<open>"up"\<close>, or
  that have no \<^verbatim>\<open>v\<close> tag, are skipped without an error.
\<close>

theorem computeScore_excludes_malformed_witness:
  "vote_of Number_lit (vote_event ''05'' ''dave'' 30 ''2'') = None \<and>
   computeScore Number_lit
     [vote_event ''01'' ''alice'' 10 ''1'', vote_event ''05'' ''dave'' 30 ''2'',
      vote_event ''02'' ''bob'' 5 ''1''] = 2 \<and>
   computeScore Number_lit
     [vote_event ''01'' ''alice'' 10 ''1'', vote_event ''02'' ''bob'' 5 ''1''] = 2 \<and>
   vote_of_raw Number_lit
     (raw_vote ''06'' ''erin'' 40 (Some [Some [''p'', ''author''], Some [''e'', ''target'']]))
     = Inr None \<and>
   computeScore_raw Number_lit
     [raw_vote ''01'' ''alice'' 10 (Some [Some [''e'', ''target''], Some [''v'', ''1'']]),
      raw_vote ''06'' ''erin'' 40 (Some [Some [''p'', ''author''], Some [''e'', ''target'']]),
      raw_vote ''07'' ''frank'' 50 (Some [Some [''v'', ''up'']]),
      raw_vote ''02'' ''bob'' 5 (Some [Some [''v'', ''1'']])] = Inr 2"
proof -
  let ?a = "vote_event ''01'' ''alice'' 10 ''1''"
  let ?b = "vote_event ''02'' ''bob'' 5 ''1''"
  let ?d = "vote_event ''05'' ''dave'' 30 ''2''"
  let ?ra = "raw_vote ''01'' ''alice'' 10 (Some [Some [''e'', ''target''], Some [''v'', ''1'']])"
  let ?re = "raw_vote ''06'' ''erin'' 40 (Some [Some [''p'', ''author''], Some [''e'', ''target'']])"
  let ?rf = "raw_vote ''07'' ''frank'' 50 (Some [Some [''v'', ''up'']])"
  let ?rb = "raw_vote ''02'' ''bob'' 5 (Some [Some [''v'', ''1'']])"
  have n: "vote_of Number_lit ?d = None" by (simp add: eval_score)
  have v: "computeScore Number_lit [?a, ?b] = 2" by (simp add: eval_score)
  from computeScore_excludes_malformed [of Number_lit ?d "[?a]" "[?b]"] n
  have 1: "computeScore Number_lit ([?a] @ ?d # [?b]) = computeScore Number_lit ([?a] @ [?b])"
    by blast
  have te: "tag_arrays ?re" and tf: "tag_arrays ?rf" by (simp_all add: eval_raw)
  have "vote_of Number_lit (as_event ?re) = None" by (simp add: eval_raw eval_score)
  with computeScore_excludes_malformed [of Number_lit _ _ _ _ ?re] te
  have ne: "vote_of_raw Number_lit ?re = Inr None" by simp
  have "vote_of Number_lit (as_event ?rf) = None" by (simp add: eval_raw eval_score)
  with computeScore_excludes_malformed [of Number_lit _ _ _ _ ?rf] tf
  have nf: "vote_of_raw Number_lit ?rf = Inr None" by simp
  from computeScore_excludes_malformed [of Number_lit _ _ _ _ ?re _ "[?ra]" "[?rf, ?rb]"] ne
  have 2: "computeScore_raw Number_lit ([?ra] @ ?re # [?rf, ?rb])
             = computeScore_raw Number_lit ([?ra] @ [?rf, ?rb])" by blast
  from computeScore_excludes_malformed [of Number_lit _ _ _ _ ?rf _ "[?ra]" "[?rb]"] nf
  have 3: "computeScore_raw Number_lit ([?ra] @ ?rf # [?rb])
             = computeScore_raw Number_lit ([?ra] @ [?rb])" by blast
  have ok: "list_all tag_arrays [?ra, ?rb]" by (simp add: eval_raw)
  from computeScore_excludes_malformed [of Number_lit _ _ _ _ _ "[?ra, ?rb]"] ok
  have 4: "computeScore_raw Number_lit [?ra, ?rb]
             = Inr (computeScore Number_lit (map as_event [?ra, ?rb]))" by blast
  have 5: "computeScore Number_lit (map as_event [?ra, ?rb]) = 2"
    by (simp add: eval_raw eval_score)
  from n v 1 ne 2 3 4 5 show ?thesis by simp
qed

text \<open>
  An event without a \<^verbatim>\<open>tags\<close> array, in contrast, makes \<open>computeScore_raw\<close> raise.
\<close>

lemma computeScore_raw_missing_tags_example:
  "computeScore_raw Number_lit
     [raw_vote ''01'' ''alice'' 10 (Some [Some [''v'', ''1'']]), raw_vote ''08'' ''gina'' 60 None]
   = Inl TypeError"
  by (simp add: eval_raw)

text \<open>
  Claim C3 as stated fails: an event with no \<^verbatim>\<open>p\<close> tag whose \<^verbatim>\<open>v\<close> tag is \<^verbatim>\<open>"1"\<close> is
  counted (the score of the input holding it alone is 1, not 0).
\<close>

theorem computeScore_malformed_counterexample:
  "find (is_tag ''p'')
     (tags \<lparr>event_id = ''04'', pubkey = ''carol'', created_at = Some 7, kind = KIND_KARMA_VOTE,
            tags = [[''e'', ''target''], [''v'', ''1'']], content = []\<rparr>) = None \<and>
   computeScore Number_lit [] = 0 \<and>
   computeScore Number_lit
     [\<lparr>event_id = ''04'', pubkey = ''carol'', created_at = Some 7, kind = KIND_KARMA_VOTE,
       tags = [[''e'', ''target''], [''v'', ''1'']], content = []\<rparr>] = 1"
  by (simp add: eval_score is_tag_def)

section \<open>Relays: facts and claims\<close>

lemma update_keys:
  "\<forall>kv \<in> set al. fst kv = f (snd kv) \<Longrightarrow>
   \<forall>kv \<in> set (AList.update (f v) v al). fst kv = f (snd kv)"
  by (induction al) auto

lemma collected_keys:
  "\<forall>kv \<in> set al. fst kv = event_id (snd kv) \<Longrightarrow>
   \<forall>kv \<in> set (fold (\<lambda>ev out. AList.update (event_id ev) ev out) evs al). fst kv = event_id (snd kv)"
proof (induction evs arbitrary: al)
  case Nil
  then show ?case by simp
next
  case (Cons e evs)
  have "\<forall>kv \<in> set (AList.update (event_id e) e al). fst kv = event_id (snd kv)"
    using Cons.prems by (rule update_keys)
  then show ?case using Cons.IH by simp
qed

lemma collected_distinct:
  "distinct (map fst al) \<Longrightarrow>
   distinct (map fst (fold (\<lambda>ev out. AList.update (event_id ev) ev out) evs al))"
  by (induction evs arbitrary: al) (simp_all add: distinct_update)

lemma collectFromRelay_distinct:
  assumes "collectFromRelay r = Inr evs"
  shows "distinct (map event_id evs)"
proof -
  from assms obtain delivered where d: "sub_events r = Some delivered"
    and evs: "evs = map snd (fold (\<lambda>ev out. AList.update (event_id ev) ev out) delivered [])"
    by (auto simp: collectFromRelay_def split: option.splits)
  let ?out = "fold (\<lambda>ev out. AList.update (event_id ev) ev out) delivered []"
  have "\<forall>kv \<in> set ?out. fst kv = event_id (snd kv)"
    by (rule collected_keys) simp
  then have eq: "map event_id (map snd ?out) = map fst ?out" by simp
  have dist: "distinct (map fst ?out)" by (rule collected_distinct) simp
  show ?thesis unfolding evs eq by (rule dist)
qed

lemma fold_append_concat:
  "fold (\<lambda>r results. results @ g r) rs acc = acc @ concat (map g rs)"
  by (induction rs arbitrary: acc) simp_all

lemma fetchVotesForPost_concat:
  "fetchVotesForPost rs =
     concat (map (\<lambda>r. case collectFromRelay r of Inl e \<Rightarrow> [] | Inr events \<Rightarrow> events) rs)"
proof -
  have "(\<lambda>r results. case collectFromRelay r of Inl e \<Rightarrow> results | Inr events \<Rightarrow> results @ events)
        = (\<lambda>r results. results @ (case collectFromRelay r of Inl e \<Rightarrow> [] | Inr events \<Rightarrow> events))"
    by (auto simp: fun_eq_iff split: sum.splits)
  then show ?thesis by (simp add: fetchVotesForPost_def fold_append_concat)
qed

lemma distinct_filter_le_1:
  "distinct (map f xs) \<Longrightarrow> length (filter (\<lambda>x. f x = i) xs) \<le> 1"
  by (induction xs) (auto simp: filter_empty_conv image_iff)

lemma relay_share_le_1:
  "length (filter (\<lambda>e. event_id e = i)
     (case collectFromRelay r of Inl e \<Rightarrow> [] | Inr events \<Rightarrow> events)) \<le> 1"
proof (cases "collectFromRelay r")
  case (Inl a)
  then show ?thesis by simp
next
  case (Inr b)
  then have "distinct (map event_id b)" by (rule collectFromRelay_distinct)
  then have "length (filter (\<lambda>e. event_id e = i) b) \<le> 1" by (rule distinct_filter_le_1)
  with Inr show ?thesis by simp
qed

lemma count_concat_le:
  "(\<And>r. length (filter P (g r)) \<le> 1) \<Longrightarrow> length (filter P (concat (map g rs))) \<le> length rs"
proof (induction rs)
  case Nil
  then show ?case by simp
next
  case (Cons r rs)
  from Cons.prems have "length (filter P (g r)) \<le> 1" .
  moreover from Cons have "length (filter P (concat (map g rs))) \<le> length rs" by simp
  ultimately show ?case by simp
qed

text \<open>
  Claim C4, as amended. The result of \<open>collectFromRelay\<close> for one relay holds each event id
  at most once. \<open>fetchVotesForPost\<close> concatenates the per-relay results in relay order and
  removes nothing, so the merged collection holds an event id at most once per relay: at
  most as many times as there are relays.
\<close>

theorem fetchVotesForPost_merge:
  "(\<forall>evs. collectFromRelay r = Inr evs \<longrightarrow> distinct (map event_id evs)) \<and>
   fetchVotesForPost rs =
     concat (map (\<lambda>r. case collectFromRelay r of Inl e \<Rightarrow> [] | Inr events \<Rightarrow> events) rs) \<and>
   length (filter (\<lambda>e. event_id e = i) (fetchVotesForPost rs)) \<le> length rs"
proof (intro conjI allI impI)
  fix evs assume "collectFromRelay r = Inr evs"
  then show "distinct (map event_id evs)" by (rule collectFromRelay_distinct)
next
  show "fetchVotesForPost rs =
     concat (map (\<lambda>r. case collectFromRelay r of Inl e \<Rightarrow> [] | Inr events \<Rightarrow> events) rs)"
    by (rule fetchVotesForPost_concat)
next
  show "length (filter (\<lambda>e. event_id e = i) (fetchVotesForPost rs)) \<le> length rs"
    unfolding fetchVotesForPost_concat by (rule count_concat_le) (rule relay_share_le_1)
qed

lemmas eval_relay = collectFromRelay_def fetchVotesForPost_def vote_event_def

text \<open>
  The theorem of C4 at a concrete input: a relay that delivers the same event twice.
\<close>

theorem fetchVotesForPost_merge_witness:
  "collectFromRelay
     \<lparr>url = ''wss://nos.lol'', status = 1,
      sub_events = Some [vote_event ''01'' ''alice'' 10 ''1'', vote_event ''02'' ''bob'' 5 ''1'',
                         vote_event ''01'' ''alice'' 10 ''1''],
      publish = Accepted\<rparr>
     = Inr [vote_event ''01'' ''alice'' 10 ''1'', vote_event ''02'' ''bob'' 5 ''1''] \<and>
   distinct (map event_id [vote_event ''01'' ''alice'' 10 ''1'', vote_event ''02'' ''bob'' 5 ''1''])"
proof -
  let ?r = "\<lparr>url = ''wss://nos.lol'', status = 1,
      sub_events = Some [vote_event ''01'' ''alice'' 10 ''1'', vote_event ''02'' ''bob'' 5 ''1'',
                         vote_event ''01'' ''alice'' 10 ''1''],
      publish = Accepted\<rparr>"
  have c: "collectFromRelay ?r
     = Inr [vote_event ''01'' ''alice'' 10 ''1'', vote_event ''02'' ''bob'' 5 ''1'']"
    by (simp add: eval_relay)
  with fetchVotesForPost_merge [of ?r "[]" "[]"]
  have "distinct (map event_id [vote_event ''01'' ''alice'' 10 ''1'', vote_event ''02'' ''bob'' 5 ''1''])"
    by blast
  with c show ?thesis by simp
qed

text \<open>
  Claim C4 as stated fails: an event returned by two relays is in the merged collection
  twice.
\<close>

theorem fetchVotesForPost_merge_counterexample:
  "fetchVotesForPost
     [\<lparr>url = ''wss://nos.lol'', status = 1,
       sub_events = Some [vote_event ''01'' ''alice'' 10 ''1''], publish = Accepted\<rparr>,
      \<lparr>url = ''wss://relay.damus.io'', status = 1,
       sub_events = Some [vote_event ''01'' ''alice'' 10 ''1''], publish = Accepted\<rparr>]
   = [vote_event ''01'' ''alice'' 10 ''1'', vote_event ''01'' ''alice'' 10 ''1'']"
  by (simp add: eval_relay)

text \<open>
  Claim C8, as amended. For a relay that delivers no event, \<open>collectFromRelay\<close> resolves with
  the empty list. When subscribing fails, \<open>collectFromRelay\<close> itself fails (its promise is
  rejected), and it fails in no other case; the failure is caught by its caller
  \<open>fetchVotesForPost\<close>, for which a relay that fails to subscribe, like a silent one,
  contributes nothing and does not disturb the other relays. (The model has no clock: it
  says what is returned when the timer fires, not when that is.)
\<close>

theorem collectFromRelay_failures:
  "(sub_events r = Some [] \<longrightarrow> collectFromRelay r = Inr []) \<and>
   (sub_events r = None \<longrightarrow> collectFromRelay r = Inl SubscribeError) \<and>
   ((\<exists>evs. collectFromRelay r = Inr evs) \<longleftrightarrow> sub_events r \<noteq> None) \<and>
   (sub_events r = None \<or> sub_events r = Some [] \<longrightarrow>
      fetchVotesForPost (rs @ r # rs') = fetchVotesForPost (rs @ rs'))"
  by (auto simp: collectFromRelay_def fetchVotesForPost_concat split: option.splits)

text \<open>
  The theorem of C8 at concrete inputs: a silent relay, and a relay whose subscription
  fails before a relay that answers.
\<close>

theorem collectFromRelay_failures_witness:
  "collectFromRelay \<lparr>url = ''wss://nos.lol'', status = 1, sub_events = Some [], publish = Accepted\<rparr>
     = Inr [] \<and>
   fetchVotesForPost
     [\<lparr>url = ''wss://relay.snort.social'', status = 3, sub_events = None, publish = Rejected\<rparr>,
      \<lparr>url = ''wss://relay.damus.io'', status = 1,
       sub_events = Some [vote_event ''01'' ''alice'' 10 ''1''], publish = Accepted\<rparr>]
   = fetchVotesForPost
     [\<lparr>url = ''wss://relay.damus.io'', status = 1,
       sub_events = Some [vote_event ''01'' ''alice'' 10 ''1''], publish = Accepted\<rparr>]"
proof -
  let ?quiet = "\<lparr>url = ''wss://nos.lol'', status = 1, sub_events = Some [], publish = Accepted\<rparr>"
  let ?down = "\<lparr>url = ''wss://relay.snort.social'', status = 3, sub_events = None, publish = Rejected\<rparr>"
  let ?up = "\<lparr>url = ''wss://relay.damus.io'', status = 1,
       sub_events = Some [vote_event ''01'' ''alice'' 10 ''1''], publish = Accepted\<rparr>"
  have q: "sub_events ?quiet = Some []" and d: "sub_events ?down = None" by simp_all
  from collectFromRelay_failures [of ?quiet "[]" "[]"] q
  have 1: "collectFromRelay ?quiet = Inr []" by blast
  from collectFromRelay_failures [of ?down "[]" "[?up]"] d
  have 2: "fetchVotesForPost ([] @ ?down # [?up]) = fetchVotesForPost ([] @ [?up])" by blast
  from 1 2 show ?thesis by simp
qed

text \<open>
  Claim C8 as stated fails: when \<^verbatim>\<open>relay.sub\<close> throws, \<open>collectFromRelay\<close> hands the error to
  its caller instead of an empty set.
\<close>

theorem collectFromRelay_failures_counterexample:
  "collectFromRelay
     \<lparr>url = ''wss://relay.snort.social'', status = 3, sub_events = None, publish = Rejected\<rparr>
   = Inl SubscribeError"
  by (simp add: collectFromRelay_def)

section \<open>Feed buffer: facts and claims\<close>

lemma flush_fst: "fst (flushBufferToFeed c) = sort_key (\<lambda>ev. - created_or_0 ev) (buffer c)"
  by (simp add: flushBufferToFeed_def Let_def)

lemma flush_buffer: "buffer (snd (flushBufferToFeed c)) = []"
  by (simp add: flushBufferToFeed_def Let_def)

lemma flush_seenIds: "seenIds (snd (flushBufferToFeed c)) = seenIds c"
  by (simp add: flushBufferToFeed_def Let_def)

text \<open>
  Every note of a flush is inserted at the top, so the feed shows the flushed notes in the
  reverse of the order in which they were emitted.
\<close>

lemma take_append_take: "take n (xs @ take n ys) = take n (xs @ ys)"
  by (simp add: take_append min_def)

lemma fold_renderNote:
  "xs \<noteq> [] \<Longrightarrow> fold (\<lambda>ev f. renderNote ev True f) xs f0 = take 200 (rev xs @ f0)"
proof (induction xs arbitrary: f0)
  case Nil
  then show ?case by simp
next
  case (Cons x xs)
  show ?case
  proof (cases "xs = []")
    case True
    then show ?thesis by (simp add: renderNote_def)
  next
    case False
    then have "fold (\<lambda>ev f. renderNote ev True f) xs (renderNote x True f0)
                 = take 200 (rev xs @ renderNote x True f0)"
      by (rule Cons.IH)
    also have "\<dots> = take 200 (rev xs @ x # f0)"
      unfolding renderNote_def if_True by (rule take_append_take)
    finally show ?thesis by simp
  qed
qed

lemma flush_feed:
  "buffer c \<noteq> [] \<Longrightarrow>
   feed (snd (flushBufferToFeed c)) = take 200 (rev (fst (flushBufferToFeed c)) @ feed c)"
proof -
  assume a: "buffer c \<noteq> []"
  then have "sort_key (\<lambda>ev. - created_or_0 ev) (buffer c) \<noteq> []"
    by (metis length_sort length_0_conv)
  with a show ?thesis
    by (simp add: flushBufferToFeed_def Let_def fold_renderNote)
qed

lemma bufferIncoming_seenIds: "seenIds c \<subseteq> seenIds (bufferIncoming ev c)"
  by (auto simp: bufferIncoming_def)

lemma bufferIncoming_known:
  "event_id ev \<in> seenIds c \<Longrightarrow> bufferIncoming ev c = c"
  by (simp add: bufferIncoming_def)

lemma bufferIncoming_twice:
  "event_id e2 = event_id e1 \<Longrightarrow>
   buffer (bufferIncoming e2 (bufferIncoming e1 c)) = buffer (bufferIncoming e1 c)"
  by (simp add: bufferIncoming_def)

lemma bufferIncoming_new:
  "event_id ev \<noteq> [] \<Longrightarrow> event_id ev \<notin> seenIds c \<Longrightarrow>
   buffer (bufferIncoming ev c) = buffer c @ [ev] \<and>
   seenIds (bufferIncoming ev c) = insert (event_id ev) (seenIds c)"
  by (simp add: bufferIncoming_def)

lemma filter_eq_singleton:
  "distinct xs \<Longrightarrow> k \<in> set xs \<Longrightarrow> filter (\<lambda>x. x = k) xs = [k]"
  by (induction xs) (auto simp: filter_empty_conv)

lemma filter_key_singleton:
  assumes "distinct (map f xs)" and "k \<in> set xs"
  shows "filter (\<lambda>x. f k = f x) xs = [k]"
proof -
  from assms(1) have d: "distinct xs" and inj: "inj_on f (set xs)"
    by (simp_all add: distinct_map)
  have "filter (\<lambda>x. f k = f x) xs = filter (\<lambda>x. x = k) xs"
    using inj assms(2) by (intro filter_cong) (auto dest: inj_onD)
  with d assms(2) show ?thesis by (simp add: filter_eq_singleton)
qed

lemma sort_key_perm_distinct:
  assumes m: "mset xs = mset ys" and d: "distinct (map f xs)"
  shows "sort_key f xs = sort_key f ys"
proof -
  from m have "mset (map f xs) = mset (map f ys)" by simp
  with d have d': "distinct (map f ys)" by (metis mset_eq_imp_distinct_iff)
  from m have s: "set xs = set ys" by (rule mset_eq_setD)
  show ?thesis
  proof (rule properties_for_sort_key [symmetric])
    show "mset (sort_key f xs) = mset ys" using m by simp
    show "sorted (map f (sort_key f xs))" by simp
    fix k assume "k \<in> set (sort_key f xs)"
    then have k: "k \<in> set xs" by simp
    have c: "(\<lambda>x. f k = f x) = (\<lambda>x. f x = f k)" by auto
    have "filter (\<lambda>x. f k = f x) (sort_key f xs) = filter (\<lambda>x. f k = f x) xs"
      unfolding c by (rule sort_key_stable)
    also have "\<dots> = [k]" using d k by (rule filter_key_singleton)
    also have "[k] = filter (\<lambda>x. f k = f x) ys"
      using d' k s by (simp add: filter_key_singleton)
    finally show "filter (\<lambda>x. f k = f x) (sort_key f xs) = filter (\<lambda>x. f k = f x) ys" .
  qed
qed

lemma flush_feed_fold:
  "feed (snd (flushBufferToFeed c))
     = fold (\<lambda>ev f. renderNote ev True f) (fst (flushBufferToFeed c)) (feed c)"
  by (simp add: flushBufferToFeed_def Let_def)

lemma flush_idle: "buffer c = [] \<Longrightarrow> flushBufferToFeed c = ([], c)"
  by (simp add: flushBufferToFeed_def)

lemma flush_all_in_feed:
  assumes "length (buffer c) \<le> 200"
  shows "set (buffer c) \<subseteq> set (feed (snd (flushBufferToFeed c)))"
proof (cases "buffer c = []")
  case True
  then show ?thesis by simp
next
  case False
  let ?out = "fst (flushBufferToFeed c)"
  have len: "length ?out \<le> 200" using assms by (simp add: flush_fst)
  have "feed (snd (flushBufferToFeed c)) = take 200 (rev ?out @ feed c)"
    using False by (rule flush_feed)
  also have "\<dots> = rev ?out @ take (200 - length ?out) (feed c)"
    using len by simp
  finally have "set ?out \<subseteq> set (feed (snd (flushBufferToFeed c)))" by simp
  then show ?thesis by (simp add: flush_fst)
qed

text \<open>
  Claim C6, as amended. \<open>flushBufferToFeed\<close> emits all pending events: it hands each of
  them to \<^verbatim>\<open>renderNote\<close>, in order of descending \<^verbatim>\<open>created_at\<close> (a missing one read as 0),
  events with equal \<^verbatim>\<open>created_at\<close> in their arrival order, and the feed afterwards is the
  result of these calls on the feed before; with at most 200 pending events all of them are
  in the feed afterwards. It leaves the buffer empty, so a flush right after it emits
  nothing and changes nothing. When the pending events have pairwise distinct
  \<^verbatim>\<open>created_at\<close>, the emitted sequence depends only on the multiset of pending events.
\<close>

theorem flushBufferToFeed_order:
  "mset (fst (flushBufferToFeed c)) = mset (buffer c) \<and>
   sorted_wrt (\<lambda>a b. created_or_0 a \<ge> created_or_0 b) (fst (flushBufferToFeed c)) \<and>
   filter (\<lambda>ev. created_or_0 ev = k) (fst (flushBufferToFeed c))
     = filter (\<lambda>ev. created_or_0 ev = k) (buffer c) \<and>
   buffer (snd (flushBufferToFeed c)) = [] \<and>
   fst (flushBufferToFeed (snd (flushBufferToFeed c))) = [] \<and>
   (mset (buffer c) = mset (buffer c') \<and> distinct (map created_or_0 (buffer c)) \<longrightarrow>
      fst (flushBufferToFeed c) = fst (flushBufferToFeed c')) \<and>
   feed (snd (flushBufferToFeed c))
     = fold (\<lambda>ev f. renderNote ev True f) (fst (flushBufferToFeed c)) (feed c) \<and>
   (length (buffer c) \<le> 200 \<longrightarrow> set (buffer c) \<subseteq> set (feed (snd (flushBufferToFeed c)))) \<and>
   snd (flushBufferToFeed (snd (flushBufferToFeed c))) = snd (flushBufferToFeed c)"
proof (intro conjI impI)
  show "mset (fst (flushBufferToFeed c)) = mset (buffer c)"
    by (simp add: flush_fst)
  have "sorted (map (\<lambda>ev. - created_or_0 ev) (fst (flushBufferToFeed c)))"
    by (simp add: flush_fst)
  then show "sorted_wrt (\<lambda>a b. created_or_0 a \<ge> created_or_0 b) (fst (flushBufferToFeed c))"
    by (simp add: sorted_map)
  have "filter (\<lambda>ev. - created_or_0 ev = - k) (fst (flushBufferToFeed c))
          = filter (\<lambda>ev. - created_or_0 ev = - k) (buffer c)"
    unfolding flush_fst by (rule sort_key_stable)
  then show "filter (\<lambda>ev. created_or_0 ev = k) (fst (flushBufferToFeed c))
     = filter (\<lambda>ev. created_or_0 ev = k) (buffer c)"
    by simp
  show "buffer (snd (flushBufferToFeed c)) = []" by (rule flush_buffer)
  show "fst (flushBufferToFeed (snd (flushBufferToFeed c))) = []"
    by (simp add: flush_fst flush_buffer)
  show "feed (snd (flushBufferToFeed c))
     = fold (\<lambda>ev f. renderNote ev True f) (fst (flushBufferToFeed c)) (feed c)"
    by (rule flush_feed_fold)
  show "snd (flushBufferToFeed (snd (flushBufferToFeed c))) = snd (flushBufferToFeed c)"
    by (simp add: flush_idle flush_buffer)
next
  assume a: "mset (buffer c) = mset (buffer c') \<and> distinct (map created_or_0 (buffer c))"
  then have "distinct (map (\<lambda>ev. - created_or_0 ev) (buffer c))"
    by (simp add: distinct_map inj_on_def)
  with a show "fst (flushBufferToFeed c) = fst (flushBufferToFeed c')"
    by (simp add: flush_fst sort_key_perm_distinct)
next
  assume "length (buffer c) \<le> 200"
  then show "set (buffer c) \<subseteq> set (feed (snd (flushBufferToFeed c)))"
    by (rule flush_all_in_feed)
qed

lemmas eval_feed = flushBufferToFeed_def bufferIncoming_def publishNote_def renderNote_def
  plain_finishEvent_def fresh_client_def note_event_def created_or_0_def KIND_NOTE_def Let_def

text \<open>
  The theorem of C6 at a concrete input: timestamps 100, 300, 200 are emitted as 300, 200,
  100, whatever the arrival order, all three are in the feed, and a second flush emits
  nothing.
\<close>

theorem flushBufferToFeed_order_witness:
  "fst (flushBufferToFeed
          (fresh_client\<lparr>buffer := [note_event ''0a'' 100, note_event ''0b'' 300, note_event ''0c'' 200]\<rparr>))
     = [note_event ''0b'' 300, note_event ''0c'' 200, note_event ''0a'' 100] \<and>
   fst (flushBufferToFeed
          (fresh_client\<lparr>buffer := [note_event ''0c'' 200, note_event ''0a'' 100, note_event ''0b'' 300]\<rparr>))
     = [note_event ''0b'' 300, note_event ''0c'' 200, note_event ''0a'' 100] \<and>
   fst (flushBufferToFeed (snd (flushBufferToFeed
          (fresh_client\<lparr>buffer := [note_event ''0a'' 100, note_event ''0b'' 300, note_event ''0c'' 200]\<rparr>))))
     = [] \<and>
   set [note_event ''0a'' 100, note_event ''0b'' 300, note_event ''0c'' 200]
     \<subseteq> set (feed (snd (flushBufferToFeed
          (fresh_client\<lparr>buffer := [note_event ''0a'' 100, note_event ''0b'' 300, note_event ''0c'' 200]\<rparr>)))) \<and>
   feed (snd (flushBufferToFeed
          (fresh_client\<lparr>buffer := [note_event ''0a'' 100, note_event ''0b'' 300, note_event ''0c'' 200]\<rparr>)))
     = fold (\<lambda>ev f. renderNote ev True f)
         [note_event ''0b'' 300, note_event ''0c'' 200, note_event ''0a'' 100] []"
proof -
  let ?c = "fresh_client\<lparr>buffer := [note_event ''0a'' 100, note_event ''0b'' 300, note_event ''0c'' 200]\<rparr>"
  let ?c' = "fresh_client\<lparr>buffer := [note_event ''0c'' 200, note_event ''0a'' 100, note_event ''0b'' 300]\<rparr>"
  have v: "fst (flushBufferToFeed ?c)
     = [note_event ''0b'' 300, note_event ''0c'' 200, note_event ''0a'' 100]"
    by (simp add: eval_feed)
  have m: "mset (buffer ?c) = mset (buffer ?c')" by (simp add: add_mset_commute)
  have d: "distinct (map created_or_0 (buffer ?c))" by (simp add: eval_feed)
  have l: "length (buffer ?c) \<le> 200" by simp
  have b: "buffer ?c = [note_event ''0a'' 100, note_event ''0b'' 300, note_event ''0c'' 200]"
    and f: "feed ?c = []" by (simp_all add: fresh_client_def)
  from flushBufferToFeed_order [of ?c 0 ?c'] m d l
  have "fst (flushBufferToFeed ?c) = fst (flushBufferToFeed ?c')"
    and "fst (flushBufferToFeed (snd (flushBufferToFeed ?c))) = []"
    and "set (buffer ?c) \<subseteq> set (feed (snd (flushBufferToFeed ?c)))"
    and "feed (snd (flushBufferToFeed ?c))
           = fold (\<lambda>ev f. renderNote ev True f) (fst (flushBufferToFeed ?c)) (feed ?c)"
    by blast+
  with v b f show ?thesis by simp
qed

text \<open>
  The feed after that flush, from the top: each note was inserted above the one before.
\<close>

lemma flush_feed_example:
  "feed (snd (flushBufferToFeed
          (fresh_client\<lparr>buffer := [note_event ''0a'' 100, note_event ''0b'' 300, note_event ''0c'' 200]\<rparr>)))
     = [note_event ''0a'' 100, note_event ''0c'' 200, note_event ''0b'' 300]"
  by (simp add: eval_feed)

text \<open>
  Claim C6 as stated fails: two different events with the same \<^verbatim>\<open>created_at\<close> are emitted in
  their arrival order, so the same multiset gives two different output sequences.
\<close>

theorem flushBufferToFeed_order_counterexample:
  "mset [note_event ''0a'' 100, note_event ''0b'' 100]
     = mset [note_event ''0b'' 100, note_event ''0a'' 100] \<and>
   fst (flushBufferToFeed (fresh_client\<lparr>buffer := [note_event ''0a'' 100, note_event ''0b'' 100]\<rparr>))
     = [note_event ''0a'' 100, note_event ''0b'' 100] \<and>
   fst (flushBufferToFeed (fresh_client\<lparr>buffer := [note_event ''0b'' 100, note_event ''0a'' 100]\<rparr>))
     = [note_event ''0b'' 100, note_event ''0a'' 100] \<and>
   note_event ''0a'' 100 \<noteq> note_event ''0b'' 100"
  by (simp add: eval_feed add_mset_commute)

text \<open>
  Claim C5 at a failing input. \<^verbatim>\<open>publishNote\<close> renders the new note without adding its
  id to \<^verbatim>\<open>seenIds\<close>; when a relay then delivers the same event, \<open>bufferIncoming\<close> buffers it
  and \<open>flushBufferToFeed\<close> renders it again: the feed holds the note twice.
\<close>

theorem publishNote_echo_rendered_twice:
  "feed (snd (flushBufferToFeed
      (bufferIncoming
         (plain_finishEvent
            \<lparr>u_kind = KIND_NOTE, u_created_at = Some 100, u_tags = [], u_content = ''gm''\<rparr> ''sk'')
         (publishNote plain_finishEvent 100 ''gm''
            (fresh_client\<lparr>connectedRelays := {''wss://nos.lol''}\<rparr>)))))
   = [plain_finishEvent
        \<lparr>u_kind = KIND_NOTE, u_created_at = Some 100, u_tags = [], u_content = ''gm''\<rparr> ''sk'',
      plain_finishEvent
        \<lparr>u_kind = KIND_NOTE, u_created_at = Some 100, u_tags = [], u_content = ''gm''\<rparr> ''sk'']"
  by (simp add: eval_feed)

section \<open>Miner: claims\<close>

lemma String_nat_0: "String_nat 0 = ''0''"
  by (simp add: String_nat.simps digit_char_def)

text \<open>
  Claim C7, as amended. With \<^verbatim>\<open>powBits = 0\<close> the miner makes exactly one signing call,
  whatever \<^verbatim>\<open>maxIters\<close> is. When \<^verbatim>\<open>maxIters\<close> is positive it returns, on the first
  attempt, the event signed from the payload with the tag \<^verbatim>\<open>['nonce', '0']\<close> appended; when
  \<^verbatim>\<open>maxIters\<close> is not positive it returns the event signed from the unchanged payload.
\<close>

theorem mineAndFinish_zero_difficulty:
  "(0 < maxIters \<longrightarrow>
      mineAndFinish finishEvent unsigned sk 0 maxIters =
        (finishEvent (unsigned\<lparr>u_tags := u_tags unsigned @ [[''nonce'', ''0'']]\<rparr>) sk, 1)) \<and>
   (maxIters \<le> 0 \<longrightarrow>
      mineAndFinish finishEvent unsigned sk 0 maxIters = (finishEvent unsigned sk, 1))"
  by (simp add: mineAndFinish_def mine_loop.simps [of _ _ _ _ _ 0] String_nat_0)

text \<open>
  The theorem of C7 at concrete inputs: \<^verbatim>\<open>maxIters\<close> 15000 and 0.
\<close>

theorem mineAndFinish_zero_difficulty_witness:
  "mineAndFinish plain_finishEvent (vote_payload 100 ''author'' ''target'' 1) ''sk'' 0 15000 =
     (plain_finishEvent
        ((vote_payload 100 ''author'' ''target'' 1)
           \<lparr>u_tags := u_tags (vote_payload 100 ''author'' ''target'' 1) @ [[''nonce'', ''0'']]\<rparr>)
        ''sk'', 1) \<and>
   mineAndFinish plain_finishEvent (vote_payload 100 ''author'' ''target'' 1) ''sk'' 0 0 =
     (plain_finishEvent (vote_payload 100 ''author'' ''target'' 1) ''sk'', 1)"
  using mineAndFinish_zero_difficulty [of 15000 plain_finishEvent "vote_payload 100 ''author'' ''target'' 1" "''sk''"]
    mineAndFinish_zero_difficulty [of 0 plain_finishEvent "vote_payload 100 ''author'' ''target'' 1" "''sk''"]
  by simp

text \<open>
  Claim C7 as stated fails: with \<^verbatim>\<open>powBits = 0\<close> and the default \<^verbatim>\<open>maxIters\<close> the event
  returned for a payload without tags carries a nonce tag.
\<close>

theorem mineAndFinish_zero_difficulty_counterexample:
  "tags (fst (mineAndFinish plain_finishEvent
                \<lparr>u_kind = KIND_NOTE, u_created_at = Some 100, u_tags = [], u_content = ''gm''\<rparr>
                ''sk'' 0 20000))
   = [[''nonce'', ''0'']]"
  by (simp add: mineAndFinish_def mine_loop.simps [of _ _ _ _ _ 0] String_nat_0
        plain_finishEvent_def)

section \<open>Voting: facts and claims\<close>

lemma toggle_sign_eq:
  "s \<noteq> 0 \<Longrightarrow> toggle_sign votes eventIdHex s = (if votes eventIdHex = Some s then 0 else s)"
  by (auto simp: toggle_sign_def split: option.splits)

lemma toggle_sign_recorded: "toggle_sign (votes(eventIdHex \<mapsto> s)) eventIdHex s = 0"
  by (simp add: toggle_sign_def)

lemma sendVote_keys:
  assumes "privateKey c = Some sk" "sk \<noteq> []" "publicKey c = Some pk" "pk \<noteq> []"
  shows "sendVote finishEvent now authorHex eventIdHex s c =
     (let finalSign = toggle_sign (localVotes c) eventIdHex s;
          ev = fst (mineAndFinish finishEvent
                      (vote_payload now authorHex eventIdHex finalSign) sk 8 15000)
      in if publish_throws (relays c)
         then \<lparr>vr_client = c, vr_toast = Vote_failed, vr_event = Some ev\<rparr>
         else \<lparr>vr_client = c\<lparr>localVotes := (localVotes c)(eventIdHex \<mapsto> finalSign)\<rparr>,
               vr_toast = (if finalSign = 0 then Vote_cleared
                           else if finalSign > 0 then Upvoted else Downvoted),
               vr_event = Some ev\<rparr>)"
  using assms by (simp add: sendVote_def)


text \<open>
  Claim C9. For a requested sign +1 or -1, the toggle logic of \<open>sendVote\<close> yields 0 when the
  ledger's entry for the target equals the requested sign and the requested sign otherwise.
  With keys loaded and no \<^verbatim>\<open>publish\<close> call throwing, that final sign is what \<open>sendVote\<close>
  puts into the payload it signs, records in the ledger and reports in its toast. Hence a
  second identical request, made after the first one recorded the requested sign, yields 0.
\<close>

theorem sendVote_toggle:
  assumes "privateKey c = Some sk" and "sk \<noteq> []" and "publicKey c = Some pk" and "pk \<noteq> []"
    and "\<not> publish_throws (relays c)" and "s = 1 \<or> s = - 1"
  shows "toggle_sign (localVotes c) eventIdHex s
           = (if localVotes c eventIdHex = Some s then 0 else s) \<and>
         localVotes (vr_client (sendVote finishEvent now authorHex eventIdHex s c)) eventIdHex
           = Some (if localVotes c eventIdHex = Some s then 0 else s) \<and>
         vr_event (sendVote finishEvent now authorHex eventIdHex s c)
           = Some (fst (mineAndFinish finishEvent
                          (vote_payload now authorHex eventIdHex
                             (if localVotes c eventIdHex = Some s then 0 else s)) sk 8 15000)) \<and>
         vr_toast (sendVote finishEvent now authorHex eventIdHex s c)
           = (if localVotes c eventIdHex = Some s then Vote_cleared
              else if s = 1 then Upvoted else Downvoted) \<and>
         (localVotes c eventIdHex \<noteq> Some s \<longrightarrow>
            localVotes (vr_client (sendVote finishEvent now' authorHex eventIdHex s
                         (vr_client (sendVote finishEvent now authorHex eventIdHex s c))))
              eventIdHex = Some 0 \<and>
            vr_toast (sendVote finishEvent now' authorHex eventIdHex s
                         (vr_client (sendVote finishEvent now authorHex eventIdHex s c)))
              = Vote_cleared)"
proof -
  from assms(6) have s0: "s \<noteq> 0" by auto
  let ?f = "if localVotes c eventIdHex = Some s then 0 else s"
  have t: "toggle_sign (localVotes c) eventIdHex s = ?f"
    using s0 by (rule toggle_sign_eq)
  let ?c1 = "vr_client (sendVote finishEvent now authorHex eventIdHex s c)"
  have c1: "?c1 = c\<lparr>localVotes := (localVotes c)(eventIdHex \<mapsto> ?f)\<rparr>"
    using assms(5) by (simp add: sendVote_keys [OF assms(1-4)] t Let_def)
  have ev: "vr_event (sendVote finishEvent now authorHex eventIdHex s c)
           = Some (fst (mineAndFinish finishEvent (vote_payload now authorHex eventIdHex ?f) sk 8 15000))"
    using assms(5) by (simp add: sendVote_keys [OF assms(1-4)] t Let_def)
  have toast: "vr_toast (sendVote finishEvent now authorHex eventIdHex s c)
           = (if localVotes c eventIdHex = Some s then Vote_cleared
              else if s = 1 then Upvoted else Downvoted)"
    using assms(5,6) by (auto simp: sendVote_keys [OF assms(1-4)] t Let_def)
  have second: "localVotes (vr_client (sendVote finishEvent now' authorHex eventIdHex s ?c1)) eventIdHex = Some 0 \<and>
            vr_toast (sendVote finishEvent now' authorHex eventIdHex s ?c1) = Vote_cleared"
    if "localVotes c eventIdHex \<noteq> Some s"
  proof -
    from that have c1': "?c1 = c\<lparr>localVotes := (localVotes c)(eventIdHex \<mapsto> s)\<rparr>"
      using c1 by simp
    have k: "privateKey ?c1 = Some sk" "sk \<noteq> []" "publicKey ?c1 = Some pk" "pk \<noteq> []"
      and r: "\<not> publish_throws (relays ?c1)"
      using assms(1-5) by (simp_all add: c1')
    show ?thesis
      using r by (simp add: sendVote_keys [OF k] Let_def) (simp add: c1' toggle_sign_recorded)
  qed
  from t c1 ev toast second show ?thesis by simp
qed


text \<open>
  The theorem of C9 at a concrete input: two upvotes of the same target in a row.
\<close>

theorem sendVote_toggle_witness:
  "localVotes (vr_client (sendVote plain_finishEvent 100 ''author'' ''target'' 1
                 (fresh_client\<lparr>relays := [\<lparr>url = ''wss://nos.lol'', status = 1,
                                             sub_events = Some [], publish = Accepted\<rparr>]\<rparr>)))
     ''target'' = Some 1 \<and>
   localVotes (vr_client (sendVote plain_finishEvent 160 ''author'' ''target'' 1
     (vr_client (sendVote plain_finishEvent 100 ''author'' ''target'' 1
                 (fresh_client\<lparr>relays := [\<lparr>url = ''wss://nos.lol'', status = 1,
                                             sub_events = Some [], publish = Accepted\<rparr>]\<rparr>)))))
     ''target'' = Some 0"
proof -
  let ?c = "fresh_client\<lparr>relays := [\<lparr>url = ''wss://nos.lol'', status = 1,
                                             sub_events = Some [], publish = Accepted\<rparr>]\<rparr>"
  have k: "privateKey ?c = Some ''sk''" "''sk'' \<noteq> []" "publicKey ?c = Some ''pk''" "''pk'' \<noteq> []"
    by (simp_all add: fresh_client_def)
  have r: "\<not> publish_throws (relays ?c)" by (simp add: publish_throws_def)
  have s: "(1::int) = 1 \<or> (1::int) = - 1" by simp
  have l: "localVotes ?c ''target'' \<noteq> Some 1" by (simp add: fresh_client_def)
  from sendVote_toggle [OF k r s, of "''target''" plain_finishEvent 100 "''author''" 160] l
  show ?thesis by simp
qed




end
